theory Spec2Isabelle
  imports Complex_Main
begin

section \<open>The flash message store of webapp/flash_messages.py\<close>

text \<open>
  The module keeps, in the Flask session under the key \<^verbatim>\<open>_custom_flash_messages\<close>, a
  dictionary from request ids to message records. Every public function first asks
  \<^verbatim>\<open>flask.has_request_context()\<close>, reads the dictionary with
  \<^verbatim>\<open>flask.session.get(FLASH_MESSAGES_KEY, {})\<close> and, where it changes something,
  writes it back.

  The embedding passes the state explicitly. What the module reads from its
  environment and cannot compute itself (the readings of \<^verbatim>\<open>time.time()\<close>, the text of
  \<^verbatim>\<open>uuid.uuid4()\<close>) is an argument of the function that reads it, one argument per
  reading, in the order of the readings. Clock readings are real numbers: the rounding of
  Python's floats is not modelled.
\<close>

subsection \<open>Constants\<close>

definition MAX_MESSAGE_AGE :: real where
  "MAX_MESSAGE_AGE = 60"

definition MAX_MESSAGES_PER_SESSION :: nat where
  "MAX_MESSAGES_PER_SESSION = 25"

subsection \<open>Records, dictionaries, the session\<close>

text \<open>
  A stored record is a Python dictionary with the keys \<^verbatim>\<open>message\<close>, \<^verbatim>\<open>category\<close>,
  \<^verbatim>\<open>timestamp\<close> and \<^verbatim>\<open>consumed\<close>. The code reads two of them with
  \<^verbatim>\<open>.get(key, default)\<close> and two with \<^verbatim>\<open>[key]\<close>, so a key may be missing: each field
  is optional, \<open>None\<close> meaning that the key is absent.
\<close>

record msg_data =
  message :: "string option"
  category :: "string option"
  timestamp :: "real option"
  consumed :: "bool option"

text \<open>
  A Python dictionary keeps its keys in insertion order, and both the result of
  \<^verbatim>\<open>get_all_flash_messages\<close> and the tie-break of \<^verbatim>\<open>min\<close> depend on that order: a
  dictionary is an association list. A list that stands for a dictionary has distinct
  keys.
\<close>

type_synonym messages = "(string \<times> msg_data) list"

datatype error = KeyError | ValueError

text \<open>\<^verbatim>\<open>k in d\<close>.\<close>

definition dict_contains :: "string \<Rightarrow> messages \<Rightarrow> bool" where
  "dict_contains k d = (map_of d k \<noteq> None)"

text \<open>\<^verbatim>\<open>d[k] = v\<close>: an existing key keeps its position, a new key goes to the end.\<close>

fun dict_setitem :: "string \<Rightarrow> msg_data \<Rightarrow> messages \<Rightarrow> messages" where
  "dict_setitem k v [] = [(k, v)]"
| "dict_setitem k v ((k', v') # d) =
     (if k' = k then (k, v) # d else (k', v') # dict_setitem k v d)"

text \<open>\<^verbatim>\<open>del d[k]\<close>, which both callers run only on a key of \<open>d\<close>.\<close>

definition dict_delitem :: "string \<Rightarrow> messages \<Rightarrow> messages" where
  "dict_delitem k d = filter (\<lambda>(k', v). k' \<noteq> k) d"

text \<open>\<^verbatim>\<open>msg_data.get("timestamp", 0)\<close> and \<^verbatim>\<open>msg_data.get("consumed", False)\<close>.\<close>

definition get_timestamp :: "msg_data \<Rightarrow> real" where
  "get_timestamp d = (case timestamp d of None \<Rightarrow> 0 | Some t \<Rightarrow> t)"

definition get_consumed :: "msg_data \<Rightarrow> bool" where
  "get_consumed d = (case consumed d of None \<Rightarrow> False | Some b \<Rightarrow> b)"

text \<open>
  The part of Flask that the module sees: whether a request context is active, the path
  of the request, and the value of \<^verbatim>\<open>flask.session\<close> under \<^verbatim>\<open>FLASH_MESSAGES_KEY\<close>
  (\<open>None\<close> when the session has no such key).
\<close>

record flask =
  has_request_context :: bool
  request_path :: string
  session :: "messages option"

text \<open>\<^verbatim>\<open>flask.session.get(FLASH_MESSAGES_KEY, {})\<close>.\<close>

definition session_get :: "flask \<Rightarrow> messages" where
  "session_get s = (case session s of None \<Rightarrow> [] | Some d \<Rightarrow> d)"

subsection \<open>Request ids\<close>

text \<open>\<^verbatim>\<open>_get_request_id\<close>; \<open>uuid\<close> is the text of the \<^verbatim>\<open>uuid.uuid4()\<close> it draws.\<close>

definition get_request_id :: "string \<Rightarrow> flask \<Rightarrow> string" where
  "get_request_id uuid s =
     (if \<not> has_request_context s then uuid
      else request_path s @ '':'' @ uuid)"

subsection \<open>The lazy sweep\<close>

text \<open>\<^verbatim>\<open>_cleanup_old_messages\<close>; \<open>current_time\<close> is its reading of the clock.\<close>

definition cleanup_old_messages :: "real \<Rightarrow> messages \<Rightarrow> messages" where
  "cleanup_old_messages current_time d =
     filter (\<lambda>(msg_id, md). current_time - get_timestamp md < MAX_MESSAGE_AGE) d"

subsection \<open>Adding a message\<close>

text \<open>
  Python's \<^verbatim>\<open>min(xs, key=f)\<close>: the first element whose key is smallest (a later element
  replaces the best one only when its key is strictly smaller), \<^verbatim>\<open>ValueError\<close> on an
  empty sequence.
\<close>

fun min_by_key :: "('a \<Rightarrow> real) \<Rightarrow> 'a list \<Rightarrow> error + 'a" where
  "min_by_key f [] = Inl ValueError"
| "min_by_key f (x # xs) = Inr (foldl (\<lambda>best y. if f y < f best then y else best) x xs)"

text \<open>
  The key function of the eviction, \<^verbatim>\<open>lambda k: messages[k].get("timestamp", 0)\<close>. It is
  applied to the keys of \<open>d\<close> only, where \<^verbatim>\<open>messages[k]\<close> finds a record.
\<close>

definition timestamp_of_key :: "messages \<Rightarrow> string \<Rightarrow> real" where
  "timestamp_of_key d k = (case map_of d k of None \<Rightarrow> 0 | Some md \<Rightarrow> get_timestamp md)"

text \<open>Lines 83 to 88: the capacity guard.\<close>

definition evict_oldest :: "messages \<Rightarrow> error + messages" where
  "evict_oldest d =
     (if length d \<ge> MAX_MESSAGES_PER_SESSION then
        (case min_by_key (timestamp_of_key d) (map fst d) of
           Inl e \<Rightarrow> Inl e
         | Inr oldest_key \<Rightarrow> Inr (dict_delitem oldest_key d))
      else Inr d)"

text \<open>The record that lines 91 to 96 store.\<close>

definition new_record :: "string \<Rightarrow> string \<Rightarrow> real \<Rightarrow> msg_data" where
  "new_record msg cat now =
     \<lparr>message = Some msg, category = Some cat, timestamp = Some now, consumed = Some False\<rparr>"

text \<open>
  \<^verbatim>\<open>flash_message(message, category, request_id)\<close>. \<open>uuid\<close> is the identifier drawn when
  no request id is given, \<open>now1\<close> the clock reading of the sweep and \<open>now2\<close> the one
  stored in the new record. The result is the outcome (the returned text, or the exception
  raised) and the state afterwards.
\<close>

definition flash_message ::
  "string \<Rightarrow> string \<Rightarrow> string option \<Rightarrow> string \<Rightarrow> real \<Rightarrow> real \<Rightarrow> flask
     \<Rightarrow> (error + string) \<times> flask" where
  "flash_message msg cat request_id uuid now1 now2 s =
     (if \<not> has_request_context s then (Inr '''', s)
      else
        let rid = (case request_id of None \<Rightarrow> get_request_id uuid s | Some r \<Rightarrow> r);
            d = cleanup_old_messages now1 (session_get s)
        in (case evict_oldest d of
              Inl e \<Rightarrow> (Inl e, s)
            | Inr d' \<Rightarrow>
                (Inr rid, s\<lparr>session := Some (dict_setitem rid (new_record msg cat now2) d')\<rparr>)))"

subsection \<open>Reading messages\<close>

text \<open>
  What the retrieval functions return is a list of message texts, or of
  \<^verbatim>\<open>(category, message)\<close> pairs when \<^verbatim>\<open>with_categories\<close> is set.
\<close>

datatype flash_item = Text string | Categorised string string

text \<open>
  \<^verbatim>\<open>category_filter and msg_data["category"] not in category_filter\<close>: whether the
  filter excludes the record. \<^verbatim>\<open>None\<close> and the empty list are false in Python, and the
  category is then not read; \<^verbatim>\<open>KeyError\<close> when the filter is in force and the record
  has no category.
\<close>

definition excluded :: "string list option \<Rightarrow> msg_data \<Rightarrow> error + bool" where
  "excluded category_filter md =
     (case category_filter of
        None \<Rightarrow> Inr False
      | Some F \<Rightarrow>
          if F = [] then Inr False
          else (case category md of None \<Rightarrow> Inl KeyError | Some c \<Rightarrow> Inr (c \<notin> set F)))"

text \<open>
  The element built for a record: \<^verbatim>\<open>(msg_data["category"], msg_data["message"])\<close> or
  \<^verbatim>\<open>msg_data["message"]\<close>; \<^verbatim>\<open>KeyError\<close> when a key it reads is missing.
\<close>

definition render :: "bool \<Rightarrow> msg_data \<Rightarrow> error + flash_item" where
  "render with_categories md =
     (if with_categories then
        (case category md of
           None \<Rightarrow> Inl KeyError
         | Some c \<Rightarrow> (case message md of None \<Rightarrow> Inl KeyError | Some m \<Rightarrow> Inr (Categorised c m)))
      else (case message md of None \<Rightarrow> Inl KeyError | Some m \<Rightarrow> Inr (Text m)))"

text \<open>
  \<^verbatim>\<open>get_flash_messages(request_id, with_categories, category_filter)\<close>. The record is
  marked and the dictionary written back before the filter is looked at, so the state
  changes also when the call returns nothing or raises afterwards.
\<close>

definition get_flash_messages ::
  "string \<Rightarrow> bool \<Rightarrow> string list option \<Rightarrow> flask \<Rightarrow> (error + flash_item list) \<times> flask" where
  "get_flash_messages request_id with_categories category_filter s =
     (if \<not> has_request_context s then (Inr [], s)
      else
        let d = session_get s in
        case map_of d request_id of
          None \<Rightarrow> (Inr [], s)
        | Some md \<Rightarrow>
            let md' = md\<lparr>consumed := Some True\<rparr>;
                s' = s\<lparr>session := Some (dict_setitem request_id md' d)\<rparr>
            in (case excluded category_filter md' of
                  Inl e \<Rightarrow> (Inl e, s')
                | Inr ex \<Rightarrow>
                    if ex then (Inr [], s')
                    else (case render with_categories md' of
                            Inl e \<Rightarrow> (Inl e, s')
                          | Inr item \<Rightarrow> (Inr [item], s'))))"

text \<open>
  The loop of \<^verbatim>\<open>get_all_flash_messages\<close> over the swept dictionary. It returns the
  outcome (the list built, or the exception that stopped it) and the dictionary with the
  marks set so far: a record is marked after its element was appended, so the record that
  raises is not marked, and the records after it are not reached.
\<close>

fun get_all_loop ::
  "bool \<Rightarrow> string list option \<Rightarrow> messages \<Rightarrow> (error + flash_item list) \<times> messages" where
  "get_all_loop with_categories category_filter [] = (Inr [], [])"
| "get_all_loop with_categories category_filter ((msg_id, md) # rest) =
     (if get_consumed md then
        (let (r, rest') = get_all_loop with_categories category_filter rest
         in (r, (msg_id, md) # rest'))
      else
        (case excluded category_filter md of
           Inl e \<Rightarrow> (Inl e, (msg_id, md) # rest)
         | Inr ex \<Rightarrow>
             if ex then
               (let (r, rest') = get_all_loop with_categories category_filter rest
                in (r, (msg_id, md) # rest'))
             else
               (case render with_categories md of
                  Inl e \<Rightarrow> (Inl e, (msg_id, md) # rest)
                | Inr item \<Rightarrow>
                    (let (r, rest') = get_all_loop with_categories category_filter rest
                     in ((case r of Inl e \<Rightarrow> Inl e | Inr items \<Rightarrow> Inr (item # items)),
                         (msg_id, md\<lparr>consumed := Some True\<rparr>) # rest')))))"

text \<open>
  The swept dictionary is a new dictionary, but its records are the objects of the
  dictionary in the session: a mark set on one of them shows in the session at once. When
  the loop raises, \<^verbatim>\<open>flask.session[FLASH_MESSAGES_KEY] = messages\<close> is not reached and
  the session keeps its unswept dictionary, with the marks the loop has set.
\<close>

definition marks_in_place :: "messages \<Rightarrow> messages \<Rightarrow> messages" where
  "marks_in_place marked d =
     map (\<lambda>(k, md). (k, case map_of marked k of None \<Rightarrow> md | Some md' \<Rightarrow> md')) d"

text \<open>
  \<^verbatim>\<open>get_all_flash_messages(with_categories, category_filter)\<close>; \<open>now\<close> is the clock
  reading of its sweep.
\<close>

definition get_all_flash_messages ::
  "bool \<Rightarrow> string list option \<Rightarrow> real \<Rightarrow> flask \<Rightarrow> (error + flash_item list) \<times> flask" where
  "get_all_flash_messages with_categories category_filter now s =
     (if \<not> has_request_context s then (Inr [], s)
      else
        let d = cleanup_old_messages now (session_get s);
            (r, marked) = get_all_loop with_categories category_filter d
        in (case r of
              Inl e \<Rightarrow> (Inl e, s\<lparr>session := map_option (marks_in_place marked) (session s)\<rparr>)
            | Inr items \<Rightarrow> (Inr items, s\<lparr>session := Some marked\<rparr>)))"

subsection \<open>Clearing and checking\<close>

text \<open>\<^verbatim>\<open>clear_flash_messages(request_id)\<close>, which returns nothing.\<close>

definition clear_flash_messages :: "string option \<Rightarrow> flask \<Rightarrow> flask" where
  "clear_flash_messages request_id s =
     (if \<not> has_request_context s then s
      else case request_id of
             None \<Rightarrow> s\<lparr>session := Some []\<rparr>
           | Some rid \<Rightarrow>
               let d = session_get s in
               if dict_contains rid d then s\<lparr>session := Some (dict_delitem rid d)\<rparr> else s)"

text \<open>\<^verbatim>\<open>has_flash_messages(request_id)\<close>, which only reads the session.\<close>

definition has_flash_messages :: "string option \<Rightarrow> flask \<Rightarrow> bool" where
  "has_flash_messages request_id s =
     (if \<not> has_request_context s then False
      else
        let d = session_get s in
        case request_id of
          Some rid \<Rightarrow> (case map_of d rid of None \<Rightarrow> False | Some md \<Rightarrow> \<not> get_consumed md)
        | None \<Rightarrow> list_ex (\<lambda>(k, md). \<not> get_consumed md) d)"

subsection \<open>Calls and runs\<close>

text \<open>
  A call of one of the five public functions with its arguments and the readings it takes
  from the environment, and the state that the call leaves behind. Properties of every
  public operation are stated over \<open>run\<close>.
\<close>

datatype call =
    Flash string string "string option" string real real
  | Get string bool "string list option"
  | GetAll bool "string list option" real
  | Clear "string option"
  | Has "string option"

fun run :: "call \<Rightarrow> flask \<Rightarrow> flask" where
  "run (Flash msg cat request_id uuid now1 now2) s =
     snd (flash_message msg cat request_id uuid now1 now2 s)"
| "run (Get request_id with_categories category_filter) s =
     snd (get_flash_messages request_id with_categories category_filter s)"
| "run (GetAll with_categories category_filter now) s =
     snd (get_all_flash_messages with_categories category_filter now s)"
| "run (Clear request_id) s = clear_flash_messages request_id s"
| "run (Has request_id) s = s"

text \<open>Whether a call is a call of \<^verbatim>\<open>flash_message\<close>.\<close>

fun is_flash :: "call \<Rightarrow> bool" where
  "is_flash (Flash msg cat request_id uuid now1 now2) = True"
| "is_flash c = False"

text \<open>
  The request id under which a call of \<^verbatim>\<open>flash_message\<close> stores its record (lines 73
  and 74, inside a request context).
\<close>

definition stored_id :: "string option \<Rightarrow> string \<Rightarrow> flask \<Rightarrow> string" where
  "stored_id request_id uuid s =
     (case request_id of None \<Rightarrow> get_request_id uuid s | Some r \<Rightarrow> r)"

text \<open>
  Following the specification's words (section 4.4): the records that a pass of
  \<^verbatim>\<open>get_all_flash_messages\<close> returns are the unconsumed ones that the filter admits.
\<close>

definition delivers :: "string list option \<Rightarrow> msg_data \<Rightarrow> bool" where
  "delivers category_filter md = (\<not> get_consumed md \<and> excluded category_filter md = Inr False)"

subsection \<open>A series of insertions\<close>

text \<open>
  One insertion of the eviction scenario: a call of \<^verbatim>\<open>flash_message\<close> with a request id
  chosen by the caller, the clock reading of its sweep and the clock reading it stores.
  \<open>insert_call\<close> is the call, \<open>inserted\<close> the dictionary entry that the call writes.
\<close>

record insertion =
  ins_id :: string
  ins_message :: string
  ins_category :: string
  ins_sweep :: real
  ins_stamp :: real

definition insert_call :: "insertion \<Rightarrow> call" where
  "insert_call i =
     Flash (ins_message i) (ins_category i) (Some (ins_id i)) [] (ins_sweep i) (ins_stamp i)"

definition inserted :: "insertion \<Rightarrow> string \<times> msg_data" where
  "inserted i = (ins_id i, new_record (ins_message i) (ins_category i) (ins_stamp i))"

text \<open>
  Twenty-six insertions under the ids \<^verbatim>\<open>a\<close> to \<^verbatim>\<open>z\<close>, one a second from clock
  reading 1000 on, as data for the scenario.
\<close>

definition example_insertions :: "insertion list" where
  "example_insertions =
     [\<lparr>ins_id = ''a'', ins_message = ''Message'', ins_category = ''message'',
        ins_sweep = 1000, ins_stamp = 1000\<rparr>,
      \<lparr>ins_id = ''b'', ins_message = ''Message'', ins_category = ''message'',
        ins_sweep = 1001, ins_stamp = 1001\<rparr>,
      \<lparr>ins_id = ''c'', ins_message = ''Message'', ins_category = ''message'',
        ins_sweep = 1002, ins_stamp = 1002\<rparr>,
      \<lparr>ins_id = ''d'', ins_message = ''Message'', ins_category = ''message'',
        ins_sweep = 1003, ins_stamp = 1003\<rparr>,
      \<lparr>ins_id = ''e'', ins_message = ''Message'', ins_category = ''message'',
        ins_sweep = 1004, ins_stamp = 1004\<rparr>,
      \<lparr>ins_id = ''f'', ins_message = ''Message'', ins_category = ''message'',
        ins_sweep = 1005, ins_stamp = 1005\<rparr>,
      \<lparr>ins_id = ''g'', ins_message = ''Message'', ins_category = ''message'',
        ins_sweep = 1006, ins_stamp = 1006\<rparr>,
      \<lparr>ins_id = ''h'', ins_message = ''Message'', ins_category = ''message'',
        ins_sweep = 1007, ins_stamp = 1007\<rparr>,
      \<lparr>ins_id = ''i'', ins_message = ''Message'', ins_category = ''message'',
        ins_sweep = 1008, ins_stamp = 1008\<rparr>,
      \<lparr>ins_id = ''j'', ins_message = ''Message'', ins_category = ''message'',
        ins_sweep = 1009, ins_stamp = 1009\<rparr>,
      \<lparr>ins_id = ''k'', ins_message = ''Message'', ins_category = ''message'',
        ins_sweep = 1010, ins_stamp = 1010\<rparr>,
      \<lparr>ins_id = ''l'', ins_message = ''Message'', ins_category = ''message'',
        ins_sweep = 1011, ins_stamp = 1011\<rparr>,
      \<lparr>ins_id = ''m'', ins_message = ''Message'', ins_category = ''message'',
        ins_sweep = 1012, ins_stamp = 1012\<rparr>,
      \<lparr>ins_id = ''n'', ins_message = ''Message'', ins_category = ''message'',
        ins_sweep = 1013, ins_stamp = 1013\<rparr>,
      \<lparr>ins_id = ''o'', ins_message = ''Message'', ins_category = ''message'',
        ins_sweep = 1014, ins_stamp = 1014\<rparr>,
      \<lparr>ins_id = ''p'', ins_message = ''Message'', ins_category = ''message'',
        ins_sweep = 1015, ins_stamp = 1015\<rparr>,
      \<lparr>ins_id = ''q'', ins_message = ''Message'', ins_category = ''message'',
        ins_sweep = 1016, ins_stamp = 1016\<rparr>,
      \<lparr>ins_id = ''r'', ins_message = ''Message'', ins_category = ''message'',
        ins_sweep = 1017, ins_stamp = 1017\<rparr>,
      \<lparr>ins_id = ''s'', ins_message = ''Message'', ins_category = ''message'',
        ins_sweep = 1018, ins_stamp = 1018\<rparr>,
      \<lparr>ins_id = ''t'', ins_message = ''Message'', ins_category = ''message'',
        ins_sweep = 1019, ins_stamp = 1019\<rparr>,
      \<lparr>ins_id = ''u'', ins_message = ''Message'', ins_category = ''message'',
        ins_sweep = 1020, ins_stamp = 1020\<rparr>,
      \<lparr>ins_id = ''v'', ins_message = ''Message'', ins_category = ''message'',
        ins_sweep = 1021, ins_stamp = 1021\<rparr>,
      \<lparr>ins_id = ''w'', ins_message = ''Message'', ins_category = ''message'',
        ins_sweep = 1022, ins_stamp = 1022\<rparr>,
      \<lparr>ins_id = ''x'', ins_message = ''Message'', ins_category = ''message'',
        ins_sweep = 1023, ins_stamp = 1023\<rparr>,
      \<lparr>ins_id = ''y'', ins_message = ''Message'', ins_category = ''message'',
        ins_sweep = 1024, ins_stamp = 1024\<rparr>,
      \<lparr>ins_id = ''z'', ins_message = ''Message'', ins_category = ''message'',
        ins_sweep = 1025, ins_stamp = 1025\<rparr>]"

section \<open>Basic facts\<close>

lemma map_of_dict_setitem: "map_of (dict_setitem k v d) = (map_of d)(k \<mapsto> v)"
  by (induction d) (auto simp: fun_eq_iff)

lemma evict_oldest_returns: "\<exists>d'. evict_oldest d = Inr d'"
proof (cases d)
  case Nil
  then show ?thesis by (simp add: evict_oldest_def MAX_MESSAGES_PER_SESSION_def)
next
  case (Cons p ps)
  then show ?thesis by (simp add: evict_oldest_def)
qed

lemma flash_message_context:
  assumes "has_request_context s"
    and "evict_oldest (cleanup_old_messages now1 (session_get s)) = Inr d'"
  shows "flash_message m c request_id uuid now1 now2 s =
    (Inr (case request_id of None \<Rightarrow> request_path s @ '':'' @ uuid | Some r \<Rightarrow> r),
     s\<lparr>session := Some (dict_setitem
        (case request_id of None \<Rightarrow> request_path s @ '':'' @ uuid | Some r \<Rightarrow> r)
        (new_record m c now2) d')\<rparr>)"
proof (cases request_id)
  case None
  then show ?thesis using assms
    by (simp add: flash_message_def get_request_id_def Let_def)
next
  case (Some r)
  then show ?thesis using assms
    by (simp add: flash_message_def Let_def)
qed

lemma excluded_consumed [simp]: "excluded cf (md\<lparr>consumed := b\<rparr>) = excluded cf md"
  by (simp add: excluded_def split: option.split)

lemma render_consumed [simp]: "render wc (md\<lparr>consumed := b\<rparr>) = render wc md"
  by (simp add: render_def split: option.split)

lemma get_flash_messages_found:
  assumes "has_request_context s" and "map_of (session_get s) rid = Some md"
  shows "get_flash_messages rid wc cf s =
    (case excluded cf md of
       Inl e \<Rightarrow> Inl e
     | Inr ex \<Rightarrow> if ex then Inr []
                else (case render wc md of Inl e \<Rightarrow> Inl e | Inr item \<Rightarrow> Inr [item]),
     s\<lparr>session := Some (dict_setitem rid (md\<lparr>consumed := Some True\<rparr>) (session_get s))\<rparr>)"
proof (cases "excluded cf md")
  case (Inl e)
  then show ?thesis using assms by (simp add: get_flash_messages_def Let_def)
next
  case (Inr ex)
  show ?thesis
  proof (cases "render wc md")
    case (Inl e)
    then show ?thesis using assms Inr by (simp add: get_flash_messages_def Let_def)
  next
    case r: (Inr item)
    then show ?thesis using assms Inr by (simp add: get_flash_messages_def Let_def)
  qed
qed

lemma session_get_update [simp]: "session_get (s\<lparr>session := Some d\<rparr>) = d"
  by (simp add: session_get_def)

lemma has_flash_messages_id:
  assumes "has_request_context s"
  shows "has_flash_messages (Some rid) s =
     (case map_of (session_get s) rid of None \<Rightarrow> False | Some md \<Rightarrow> \<not> get_consumed md)"
  using assms by (simp add: has_flash_messages_def Let_def)

lemma cleanup_old_messages_set:
  "(k, md) \<in> set (cleanup_old_messages now d) \<longleftrightarrow>
     (k, md) \<in> set d \<and> now - get_timestamp md < MAX_MESSAGE_AGE"
  by (auto simp: cleanup_old_messages_def)

lemma map_of_filter_distinct:
  "distinct (map fst d) \<Longrightarrow>
   map_of (filter P d) k = (case map_of d k of None \<Rightarrow> None | Some v \<Rightarrow> if P (k, v) then Some v else None)"
proof (induction d)
  case Nil
  then show ?case by simp
next
  case (Cons p d)
  obtain k' v' where p: "p = (k', v')" by (cases p)
  have notin: "map_of d k' = None" using Cons.prems p by (simp add: map_of_eq_None_iff)
  show ?case
  proof (cases "k' = k")
    case True
    have "map_of (filter P d) k = None"
      using Cons.IH Cons.prems notin True by simp
    then show ?thesis using p True by simp
  next
    case False
    then show ?thesis using Cons.IH Cons.prems p by simp
  qed
qed

lemma distinct_cleanup:
  "distinct (map fst d) \<Longrightarrow> distinct (map fst (cleanup_old_messages now d))"
  by (simp add: cleanup_old_messages_def distinct_map_filter)

lemma map_of_cleanup:
  "distinct (map fst d) \<Longrightarrow>
   map_of (cleanup_old_messages now d) k =
     (case map_of d k of None \<Rightarrow> None
      | Some md \<Rightarrow> if now - get_timestamp md < MAX_MESSAGE_AGE then Some md else None)"
  unfolding cleanup_old_messages_def by (simp add: map_of_filter_distinct split: option.split)

lemma distinct_dict_delitem:
  "distinct (map fst d) \<Longrightarrow> distinct (map fst (dict_delitem k d))"
  by (simp add: dict_delitem_def distinct_map_filter)

lemma map_of_dict_delitem:
  "map_of (dict_delitem k d) k' = (if k' = k then None else map_of d k')"
  unfolding dict_delitem_def by (induction d) auto

lemma keys_dict_setitem: "fst ` set (dict_setitem k v d) = insert k (fst ` set d)"
proof -
  have "dom (map_of (dict_setitem k v d)) = insert k (dom (map_of d))"
    by (simp add: map_of_dict_setitem)
  then show ?thesis by (simp only: dom_map_of_conv_image_fst)
qed

lemma distinct_dict_setitem:
  "distinct (map fst d) \<Longrightarrow> distinct (map fst (dict_setitem k v d))"
proof (induction d)
  case Nil
  then show ?case by simp
next
  case (Cons p d)
  obtain k' v' where p: "p = (k', v')" by (cases p)
  show ?case
  proof (cases "k' = k")
    case True
    then show ?thesis using Cons.prems p by simp
  next
    case False
    have "k' \<notin> fst ` set (dict_setitem k v d)"
      using Cons.prems p False by (simp add: keys_dict_setitem)
    then show ?thesis using Cons p False by simp
  qed
qed

lemma evict_oldest_cases:
  "evict_oldest d = Inr d' \<Longrightarrow> d' = d \<or> (\<exists>k. d' = dict_delitem k d)"
  by (auto simp: evict_oldest_def split: if_splits sum.splits)

lemma distinct_evict_oldest:
  "distinct (map fst d) \<Longrightarrow> evict_oldest d = Inr d' \<Longrightarrow> distinct (map fst d')"
  using evict_oldest_cases distinct_dict_delitem by blast

lemma map_of_evict_oldest:
  "evict_oldest d = Inr d' \<Longrightarrow> map_of d' k = None \<or> map_of d' k = map_of d k"
  using evict_oldest_cases [of d d'] by (auto simp: map_of_dict_delitem)

lemma get_all_loop_keys: "map fst (snd (get_all_loop wc cf d)) = map fst d"
proof (induction d)
  case Nil
  then show ?case by simp
next
  case (Cons p d)
  obtain k md where p: "p = (k, md)" by (cases p)
  obtain r rest' where rec: "get_all_loop wc cf d = (r, rest')" by (cases "get_all_loop wc cf d")
  have ih: "map fst rest' = map fst d" using Cons.IH rec by simp
  show ?case
    unfolding p using rec ih
    by (simp split: sum.split)
qed

text \<open>What a pass that returns normally has built and marked.\<close>

lemma get_all_loop_Inr:
  "get_all_loop wc cf d = (Inr items, d') \<Longrightarrow>
     d' = map (\<lambda>(k, md). (k, if delivers cf md then md\<lparr>consumed := Some True\<rparr> else md)) d
     \<and> map Inr items = map (\<lambda>(k, md). render wc md) (filter (\<lambda>(k, md). delivers cf md) d)"
proof (induction d arbitrary: items d')
  case Nil
  then show ?case by simp
next
  case (Cons p d)
  obtain k md where p: "p = (k, md)" by (cases p)
  obtain r rest' where rec: "get_all_loop wc cf d = (r, rest')" by (cases "get_all_loop wc cf d")
  show ?case
  proof (cases "get_consumed md")
    case True
    then have "r = Inr items" and "d' = (k, md) # rest'"
      using Cons.prems p rec by simp_all
    then show ?thesis using Cons.IH [of items rest'] rec p True by (simp add: delivers_def)
  next
    case unconsumed: False
    show ?thesis
    proof (cases "excluded cf md")
      case (Inl e)
      then show ?thesis using Cons.prems p unconsumed by simp
    next
      case (Inr ex)
      show ?thesis
      proof (cases ex)
        case True
        then have "r = Inr items" and "d' = (k, md) # rest'"
          using Cons.prems p rec unconsumed Inr by simp_all
        then show ?thesis using Cons.IH [of items rest'] rec p True Inr
          by (simp add: delivers_def)
      next
        case False
        show ?thesis
        proof (cases "render wc md")
          case (Inl e)
          then show ?thesis using Cons.prems p unconsumed Inr False by simp
        next
          case item: (Inr item)
          from Cons.prems p unconsumed Inr False item rec
          obtain items' where r: "r = Inr items'" and items: "items = item # items'"
            and d': "d' = (k, md\<lparr>consumed := Some True\<rparr>) # rest'"
            by (cases r) simp_all
          show ?thesis using Cons.IH [of items' rest'] rec r items d' p unconsumed Inr False item
            by (simp add: delivers_def)
        qed
      qed
    qed
  qed
qed

text \<open>Whatever the outcome of a pass, a record is left as it was or marked.\<close>

lemma get_all_loop_map_of:
  "map_of (snd (get_all_loop wc cf d)) k = map_of d k \<or>
   (\<exists>md. map_of d k = Some md \<and>
      map_of (snd (get_all_loop wc cf d)) k = Some (md\<lparr>consumed := Some True\<rparr>))"
proof (induction d)
  case Nil
  then show ?case by simp
next
  case (Cons p d)
  obtain k' md where p: "p = (k', md)" by (cases p)
  obtain r rest' where rec: "get_all_loop wc cf d = (r, rest')" by (cases "get_all_loop wc cf d")
  show ?case
  proof (cases "k' = k")
    case True
    then show ?thesis unfolding p using rec
      by (simp split: sum.split)
  next
    case False
    have "map_of (snd (get_all_loop wc cf (p # d))) k = map_of rest' k
        \<or> map_of (snd (get_all_loop wc cf (p # d))) k = map_of d k"
      unfolding p using rec False by (simp split: sum.split)
    then show ?thesis using Cons.IH rec False p by auto
  qed
qed

lemma map_of_marks_in_place:
  "map_of (marks_in_place marked d) k =
     (case map_of d k of None \<Rightarrow> None
      | Some md \<Rightarrow> (case map_of marked k of None \<Rightarrow> Some md | Some md' \<Rightarrow> Some md'))"
  unfolding marks_in_place_def by (induction d) (auto split: option.split)

lemma keys_marks_in_place: "map fst (marks_in_place marked d) = map fst d"
  unfolding marks_in_place_def by (induction d) auto

lemma flash_message_stored:
  assumes "has_request_context s"
    and "evict_oldest (cleanup_old_messages now1 (session_get s)) = Inr d'"
  shows "flash_message m c request_id uuid now1 now2 s =
    (Inr (stored_id request_id uuid s),
     s\<lparr>session := Some (dict_setitem (stored_id request_id uuid s) (new_record m c now2) d')\<rparr>)"
  using assms by (simp add: flash_message_def stored_id_def Let_def)

lemma get_all_flash_messages_session:
  assumes "has_request_context s"
    and "get_all_loop wc cf (cleanup_old_messages now (session_get s)) = (r, marked)"
  shows "get_all_flash_messages wc cf now s =
     (case r of
        Inl e \<Rightarrow> (Inl e, s\<lparr>session := map_option (marks_in_place marked) (session s)\<rparr>)
      | Inr items \<Rightarrow> (Inr items, s\<lparr>session := Some marked\<rparr>))"
  using assms by (simp add: get_all_flash_messages_def Let_def)

lemma session_get_marks:
  "session_get (s\<lparr>session := map_option (marks_in_place marked) (session s)\<rparr>)
     = marks_in_place marked (session_get s)"
  by (cases "session s") (simp_all add: session_get_def marks_in_place_def)

text \<open>One step of any call but a \<open>Flash\<close> under the same id keeps a consumed record or drops it.\<close>

lemma flash_keeps_other:
  assumes d: "distinct (map fst (session_get s))"
    and k: "map_of (session_get s) k = Some md"
    and other: "stored_id request_id uuid s \<noteq> k"
  shows "map_of (session_get (snd (flash_message m c request_id uuid now1 now2 s))) k = None
       \<or> map_of (session_get (snd (flash_message m c request_id uuid now1 now2 s))) k = Some md"
proof (cases "has_request_context s")
  case False
  then show ?thesis using k by (simp add: flash_message_def)
next
  case True
  obtain d' where d': "evict_oldest (cleanup_old_messages now1 (session_get s)) = Inr d'"
    using evict_oldest_returns by blast
  have c: "map_of (cleanup_old_messages now1 (session_get s)) k = None
      \<or> map_of (cleanup_old_messages now1 (session_get s)) k = Some md"
    using k by (simp add: map_of_cleanup [OF d])
  have "map_of d' k = None \<or> map_of d' k = Some md"
    using map_of_evict_oldest [OF d', of k] c by auto
  then show ?thesis
    unfolding flash_message_stored [OF True d'] using other
    by (simp add: map_of_dict_setitem)
qed

lemma get_keeps_consumed:
  assumes k: "map_of (session_get s) k = Some md" and c: "consumed md = Some True"
  shows "map_of (session_get (snd (get_flash_messages rid wc cf s))) k = Some md"
proof (cases "has_request_context s")
  case False
  then show ?thesis using k by (simp add: get_flash_messages_def)
next
  case True
  show ?thesis
  proof (cases "map_of (session_get s) rid")
    case None
    then show ?thesis using True k by (simp add: get_flash_messages_def Let_def)
  next
    case (Some md')
    have same: "md\<lparr>consumed := Some True\<rparr> = md" using c by simp
    show ?thesis
      unfolding get_flash_messages_found [OF True Some]
      using k Some same by (auto simp: map_of_dict_setitem)
  qed
qed

lemma get_all_keeps_consumed:
  assumes d: "distinct (map fst (session_get s))"
    and k: "map_of (session_get s) k = Some md" and c: "consumed md = Some True"
  shows "map_of (session_get (snd (get_all_flash_messages wc cf now s))) k = None
       \<or> map_of (session_get (snd (get_all_flash_messages wc cf now s))) k = Some md"
proof (cases "has_request_context s")
  case False
  then show ?thesis using k by (simp add: get_all_flash_messages_def)
next
  case True
  let ?cl = "cleanup_old_messages now (session_get s)"
  obtain r marked where loop: "get_all_loop wc cf ?cl = (r, marked)"
    by (cases "get_all_loop wc cf ?cl")
  have same: "md\<lparr>consumed := Some True\<rparr> = md" using c by simp
  have cl: "map_of ?cl k = None \<or> map_of ?cl k = Some md"
    using k by (simp add: map_of_cleanup [OF d])
  have mk: "map_of marked k = None \<or> map_of marked k = Some md"
    using get_all_loop_map_of [of wc cf ?cl k] loop cl same by auto
  show ?thesis
  proof (cases r)
    case (Inl e)
    have "map_of (marks_in_place marked (session_get s)) k = Some md"
      using mk k by (auto simp: map_of_marks_in_place)
    then show ?thesis
      unfolding get_all_flash_messages_session [OF True loop] Inl
      by (simp add: session_get_marks)
  next
    case (Inr items)
    show ?thesis
      unfolding get_all_flash_messages_session [OF True loop] Inr
      using mk by simp
  qed
qed

lemma clear_keeps:
  assumes k: "map_of (session_get s) k = Some md"
  shows "map_of (session_get (clear_flash_messages rid s)) k = None
       \<or> map_of (session_get (clear_flash_messages rid s)) k = Some md"
  using k by (auto simp: clear_flash_messages_def Let_def map_of_dict_delitem split: option.split)


lemma get_all_flash_messages_Inr:
  assumes ctx: "has_request_context s"
    and ret: "fst (get_all_flash_messages wc cf now s) = Inr items"
  shows "map Inr items = map (\<lambda>(k, md). render wc md)
           (filter (\<lambda>(k, md). delivers cf md) (cleanup_old_messages now (session_get s)))"
    and "session_get (snd (get_all_flash_messages wc cf now s)) =
           map (\<lambda>(k, md). (k, if delivers cf md then md\<lparr>consumed := Some True\<rparr> else md))
             (cleanup_old_messages now (session_get s))"
proof -
  let ?cl = "cleanup_old_messages now (session_get s)"
  obtain r marked where loop: "get_all_loop wc cf ?cl = (r, marked)"
    by (cases "get_all_loop wc cf ?cl")
  have r: "r = Inr items"
    using ret unfolding get_all_flash_messages_session [OF ctx loop]
    by (cases r) simp_all
  note ch = get_all_loop_Inr [OF loop [unfolded r]]
  show "map Inr items = map (\<lambda>(k, md). render wc md) (filter (\<lambda>(k, md). delivers cf md) ?cl)"
    using ch by blast
  show "session_get (snd (get_all_flash_messages wc cf now s)) =
           map (\<lambda>(k, md). (k, if delivers cf md then md\<lparr>consumed := Some True\<rparr> else md)) ?cl"
    unfolding get_all_flash_messages_session [OF ctx loop] r using ch by simp
qed

lemma keys_get_all_Inr:
  assumes ctx: "has_request_context s"
    and ret: "fst (get_all_flash_messages wc cf now s) = Inr items"
  shows "map fst (session_get (snd (get_all_flash_messages wc cf now s)))
     = map fst (cleanup_old_messages now (session_get s))"
  unfolding get_all_flash_messages_Inr(2) [OF ctx ret]
  by (induction "cleanup_old_messages now (session_get s)") (auto simp: case_prod_beta)

lemma has_request_context_flash [simp]:
  "has_request_context (snd (flash_message m c rid u n1 n2 s)) = has_request_context s"
proof (cases "has_request_context s")
  case False
  then show ?thesis by (simp add: flash_message_def)
next
  case True
  obtain d' where d': "evict_oldest (cleanup_old_messages n1 (session_get s)) = Inr d'"
    using evict_oldest_returns by blast
  show ?thesis unfolding flash_message_stored [OF True d'] by simp
qed

lemma has_request_context_get_all [simp]:
  "has_request_context (snd (get_all_flash_messages wc cf now s)) = has_request_context s"
proof (cases "has_request_context s")
  case False
  then show ?thesis by (simp add: get_all_flash_messages_def)
next
  case True
  obtain r marked where loop:
    "get_all_loop wc cf (cleanup_old_messages now (session_get s)) = (r, marked)"
    by (cases "get_all_loop wc cf (cleanup_old_messages now (session_get s))")
  show ?thesis unfolding get_all_flash_messages_session [OF True loop]
    by (cases r) simp_all
qed

lemma absent_not_has:
  "has_request_context s \<Longrightarrow> map_of (session_get s) k = None \<Longrightarrow> \<not> has_flash_messages (Some k) s"
  by (simp add: has_flash_messages_id)


lemma get_all_without_key:
  assumes ctx: "has_request_context s"
    and absent: "map_of (cleanup_old_messages now (session_get s)) k = None"
    and ret: "fst (get_all_flash_messages wc cf now s) = Inr items"
  shows "map Inr items = map (\<lambda>(k', md'). render wc md')
           (filter (\<lambda>(k', md'). k' \<noteq> k \<and> delivers cf md') (cleanup_old_messages now (session_get s)))"
proof -
  let ?cl = "cleanup_old_messages now (session_get s)"
  have "k \<notin> fst ` set ?cl" using absent by (simp add: map_of_eq_None_iff)
  then have "filter (\<lambda>(k', md'). delivers cf md') ?cl
      = filter (\<lambda>(k', md'). k' \<noteq> k \<and> delivers cf md') ?cl"
    by (intro filter_cong) force+
  then show ?thesis using get_all_flash_messages_Inr(1) [OF ctx ret] by simp
qed

lemma map_of_cleanup_absent:
  "map_of d k = None \<Longrightarrow> map_of (cleanup_old_messages now d) k = None"
  by (auto simp: map_of_eq_None_iff cleanup_old_messages_def)







lemma has_request_context_get [simp]:
  "has_request_context (snd (get_flash_messages rid wc cf s)) = has_request_context s"
proof (cases "has_request_context s")
  case False
  then show ?thesis by (simp add: get_flash_messages_def)
next
  case True
  show ?thesis
  proof (cases "map_of (session_get s) rid")
    case None
    then show ?thesis using True by (simp add: get_flash_messages_def Let_def)
  next
    case (Some md)
    show ?thesis unfolding get_flash_messages_found [OF True Some] using True by simp
  qed
qed

lemma has_request_context_clear [simp]:
  "has_request_context (clear_flash_messages rid s) = has_request_context s"
  by (simp add: clear_flash_messages_def Let_def split: option.split)

lemma has_request_context_run [simp]: "has_request_context (run c s) = has_request_context s"
  by (cases c) simp_all

text \<open>Calls other than \<^verbatim>\<open>flash_message\<close> keep the keys distinct and add no key.\<close>

lemma get_session:
  "session_get (snd (get_flash_messages rid wc cf s)) = session_get s
   \<or> (\<exists>md. map_of (session_get s) rid = Some md
        \<and> session_get (snd (get_flash_messages rid wc cf s))
            = dict_setitem rid (md\<lparr>consumed := Some True\<rparr>) (session_get s))"
proof (cases "has_request_context s")
  case False
  then show ?thesis by (simp add: get_flash_messages_def)
next
  case True
  show ?thesis
  proof (cases "map_of (session_get s) rid")
    case None
    then show ?thesis using True by (simp add: get_flash_messages_def Let_def)
  next
    case (Some md)
    show ?thesis unfolding get_flash_messages_found [OF True Some] using Some by simp
  qed
qed

lemma distinct_get:
  "distinct (map fst (session_get s)) \<Longrightarrow>
   distinct (map fst (session_get (snd (get_flash_messages rid wc cf s))))"
  using get_session [of rid wc cf s] distinct_dict_setitem by auto

lemma get_absent:
  assumes "map_of (session_get s) k = None"
  shows "map_of (session_get (snd (get_flash_messages rid wc cf s))) k = None"
  using get_session [of rid wc cf s] assms by (auto simp: map_of_dict_setitem)

lemma get_all_session:
  "session_get (snd (get_all_flash_messages wc cf now s)) = session_get s
   \<or> session_get (snd (get_all_flash_messages wc cf now s))
       = snd (get_all_loop wc cf (cleanup_old_messages now (session_get s)))
   \<or> session_get (snd (get_all_flash_messages wc cf now s))
       = marks_in_place (snd (get_all_loop wc cf (cleanup_old_messages now (session_get s))))
           (session_get s)"
proof (cases "has_request_context s")
  case False
  then show ?thesis by (simp add: get_all_flash_messages_def)
next
  case True
  obtain r marked where loop:
    "get_all_loop wc cf (cleanup_old_messages now (session_get s)) = (r, marked)"
    by (cases "get_all_loop wc cf (cleanup_old_messages now (session_get s))")
  show ?thesis unfolding get_all_flash_messages_session [OF True loop] loop
    by (cases r) (simp_all add: session_get_marks)
qed

lemma distinct_get_all:
  assumes "distinct (map fst (session_get s))"
  shows "distinct (map fst (session_get (snd (get_all_flash_messages wc cf now s))))"
  using get_all_session [of wc cf now s] assms distinct_cleanup [OF assms, of now]
  by (auto simp: get_all_loop_keys keys_marks_in_place)

lemma get_all_absent:
  assumes "map_of (session_get s) k = None"
  shows "map_of (session_get (snd (get_all_flash_messages wc cf now s))) k = None"
proof -
  let ?cl = "cleanup_old_messages now (session_get s)"
  have "k \<notin> set (map fst ?cl)"
    using map_of_cleanup_absent [OF assms, of now] by (simp add: map_of_eq_None_iff)
  then have "k \<notin> set (map fst (snd (get_all_loop wc cf ?cl)))"
    by (simp add: get_all_loop_keys)
  then have a: "map_of (snd (get_all_loop wc cf ?cl)) k = None"
    by (simp add: map_of_eq_None_iff)
  have b: "map_of (marks_in_place (snd (get_all_loop wc cf ?cl)) (session_get s)) k = None"
    using assms by (simp add: map_of_marks_in_place)
  show ?thesis using get_all_session [of wc cf now s] assms a b by auto
qed

lemma distinct_clear:
  "distinct (map fst (session_get s)) \<Longrightarrow>
   distinct (map fst (session_get (clear_flash_messages rid s)))"
  by (auto simp: clear_flash_messages_def Let_def distinct_dict_delitem split: option.split)

lemma clear_absent:
  "map_of (session_get s) k = None \<Longrightarrow> map_of (session_get (clear_flash_messages rid s)) k = None"
  by (auto simp: clear_flash_messages_def Let_def map_of_dict_delitem split: option.split)

lemma distinct_run:
  "\<not> is_flash c \<Longrightarrow> distinct (map fst (session_get s)) \<Longrightarrow>
   distinct (map fst (session_get (run c s)))"
  by (cases c) (simp_all add: distinct_get distinct_get_all distinct_clear)

text \<open>
  Under calls other than \<^verbatim>\<open>flash_message\<close>, a request id that has no record or a consumed
  record keeps having no record or a consumed one.
\<close>

lemma run_keeps_consumed:
  assumes nf: "\<not> is_flash c" and d: "distinct (map fst (session_get s))"
    and b: "\<forall>md. map_of (session_get s) k = Some md \<longrightarrow> consumed md = Some True"
  shows "\<forall>md. map_of (session_get (run c s)) k = Some md \<longrightarrow> consumed md = Some True"
proof (cases "map_of (session_get s) k")
  case None
  have "map_of (session_get (run c s)) k = None"
    using nf None by (cases c) (simp_all add: get_absent get_all_absent clear_absent)
  then show ?thesis by simp
next
  case (Some md)
  then have c: "consumed md = Some True" using b by blast
  have "map_of (session_get (run c s)) k = None \<or> map_of (session_get (run c s)) k = Some md"
  proof (cases c)
    case (Flash m' cat' rid' u' n1' n2')
    then show ?thesis using nf by simp
  next
    case (Get r wc cf)
    show ?thesis unfolding Get run.simps using get_keeps_consumed [OF Some c] by blast
  next
    case (GetAll wc cf now)
    show ?thesis unfolding GetAll run.simps using get_all_keeps_consumed [OF d Some c] by blast
  next
    case (Clear r)
    show ?thesis unfolding Clear run.simps using clear_keeps [OF Some] by blast
  next
    case (Has r)
    show ?thesis unfolding Has run.simps using Some by blast
  qed
  then show ?thesis using c by auto
qed

lemma fold_run_keeps:
  assumes "\<forall>c \<in> set cs. \<not> is_flash c" and "distinct (map fst (session_get s))"
    and "\<forall>k \<in> K. \<forall>md. map_of (session_get s) k = Some md \<longrightarrow> consumed md = Some True"
  shows "distinct (map fst (session_get (fold run cs s)))
       \<and> has_request_context (fold run cs s) = has_request_context s
       \<and> (\<forall>k \<in> K. \<forall>md. map_of (session_get (fold run cs s)) k = Some md
              \<longrightarrow> consumed md = Some True)"
  using assms
proof (induction cs arbitrary: s)
  case Nil
  then show ?case by simp
next
  case (Cons c cs)
  have nf: "\<not> is_flash c" using Cons.prems(1) by simp
  have d': "distinct (map fst (session_get (run c s)))"
    using distinct_run [OF nf Cons.prems(2)] .
  have b': "\<forall>k \<in> K. \<forall>md. map_of (session_get (run c s)) k = Some md \<longrightarrow> consumed md = Some True"
    using run_keeps_consumed [OF nf Cons.prems(2)] Cons.prems(3) by blast
  have rest: "\<forall>c \<in> set cs. \<not> is_flash c" using Cons.prems(1) by simp
  show ?case using Cons.IH [OF rest d' b'] by simp
qed

lemma distinct_map_of_mem:
  "distinct (map fst d) \<Longrightarrow> (k, v) \<in> set d \<Longrightarrow> map_of d k = Some v"
  by simp

lemma marked_keys:
  "map fst (map (\<lambda>(k, md). (k, if delivers cf md then md\<lparr>consumed := Some True\<rparr> else md)) d)
     = map fst d"
  by (induction d) (auto simp: case_prod_beta)

text \<open>After a pass that returns normally, the records it returned are consumed and the others
  are as they were.\<close>

lemma get_all_marks:
  assumes ctx: "has_request_context s"
    and d: "distinct (map fst (session_get s))"
    and ret: "fst (get_all_flash_messages wc cf now s) = Inr items"
    and mem: "(k, md) \<in> set (cleanup_old_messages now (session_get s))"
  shows "map_of (session_get (snd (get_all_flash_messages wc cf now s))) k
     = Some (if delivers cf md then md\<lparr>consumed := Some True\<rparr> else md)"
proof -
  let ?cl = "cleanup_old_messages now (session_get s)"
  let ?mark = "\<lambda>(k, md). (k, if delivers cf md then md\<lparr>consumed := Some True\<rparr> else md)"
  have s1: "session_get (snd (get_all_flash_messages wc cf now s)) = map ?mark ?cl"
    using get_all_flash_messages_Inr(2) [OF ctx ret] .
  have dist: "distinct (map fst (map ?mark ?cl))"
    unfolding marked_keys using distinct_cleanup [OF d] .
  have "?mark (k, md) \<in> ?mark ` set ?cl" using mem by (rule imageI)
  then have "(k, if delivers cf md then md\<lparr>consumed := Some True\<rparr> else md) \<in> set (map ?mark ?cl)"
    by simp
  then show ?thesis unfolding s1 using dist by (rule distinct_map_of_mem [rotated])
qed


lemma length_cleanup: "length (cleanup_old_messages now d) \<le> length d"
  by (simp add: cleanup_old_messages_def)

lemma foldl_min_mem:
  "foldl (\<lambda>best y. if f y < f best then y else best) x xs \<in> set (x # xs)"
proof (induction xs arbitrary: x)
  case Nil
  then show ?case by simp
next
  case (Cons y ys)
  show ?case using Cons.IH [of y] Cons.IH [of x] by auto
qed

lemma min_by_key_mem: "min_by_key f xs = Inr x \<Longrightarrow> x \<in> set xs"
  using foldl_min_mem [of f] by (cases xs) auto

lemma length_dict_delitem:
  "k \<in> fst ` set d \<Longrightarrow> length (dict_delitem k d) < length d"
proof -
  assume "k \<in> fst ` set d"
  then obtain v where "(k, v) \<in> set d" by auto
  then show ?thesis
    unfolding dict_delitem_def by (rule length_filter_less) simp
qed

lemma length_dict_setitem: "length (dict_setitem k v d) \<le> Suc (length d)"
  by (induction d) auto

lemma length_evict_oldest:
  assumes "evict_oldest d = Inr d'" and "length d \<le> MAX_MESSAGES_PER_SESSION"
  shows "length d' < MAX_MESSAGES_PER_SESSION"
proof (cases "length d \<ge> MAX_MESSAGES_PER_SESSION")
  case True
  then obtain k where k: "min_by_key (timestamp_of_key d) (map fst d) = Inr k"
    and d': "d' = dict_delitem k d"
    using assms(1) by (auto simp: evict_oldest_def split: sum.splits)
  have "k \<in> fst ` set d" using min_by_key_mem [OF k] by simp
  then have "length d' < length d" unfolding d' by (rule length_dict_delitem)
  then show ?thesis using assms(2) by simp
next
  case False
  then show ?thesis using assms(1) by (simp add: evict_oldest_def)
qed

lemma length_flash:
  assumes "length (session_get s) \<le> MAX_MESSAGES_PER_SESSION"
  shows "length (session_get (snd (flash_message m c rid u n1 n2 s))) \<le> MAX_MESSAGES_PER_SESSION"
proof (cases "has_request_context s")
  case False
  then show ?thesis using assms by (simp add: flash_message_def)
next
  case True
  obtain d' where d': "evict_oldest (cleanup_old_messages n1 (session_get s)) = Inr d'"
    using evict_oldest_returns by blast
  have "length (cleanup_old_messages n1 (session_get s)) \<le> MAX_MESSAGES_PER_SESSION"
    using length_cleanup [of n1 "session_get s"] assms by simp
  then have "length d' < MAX_MESSAGES_PER_SESSION" using length_evict_oldest [OF d'] by blast
  then have "length (dict_setitem (stored_id rid u s) (new_record m c n2) d')
      \<le> MAX_MESSAGES_PER_SESSION"
    using length_dict_setitem [of "stored_id rid u s" "new_record m c n2" d'] by simp
  then show ?thesis unfolding flash_message_stored [OF True d'] by simp
qed

lemma length_dict_setitem_present:
  "map_of d k = Some v' \<Longrightarrow> length (dict_setitem k v d) = length d"
  by (induction d) (auto split: if_splits)

lemma length_run:
  assumes "length (session_get s) \<le> MAX_MESSAGES_PER_SESSION"
  shows "length (session_get (run c s)) \<le> MAX_MESSAGES_PER_SESSION"
proof (cases c)
  case (Flash m cat rid u n1 n2)
  then show ?thesis using length_flash [OF assms] by simp
next
  case (Get r wc cf)
  have "length (session_get (snd (get_flash_messages r wc cf s))) = length (session_get s)"
    using get_session [of r wc cf s] by (auto simp: length_dict_setitem_present)
  then show ?thesis using Get assms by simp
next
  case (GetAll wc cf now)
  let ?cl = "cleanup_old_messages now (session_get s)"
  have "length (snd (get_all_loop wc cf ?cl)) = length ?cl"
    using get_all_loop_keys [of wc cf ?cl] by (metis length_map)
  moreover have "length (marks_in_place (snd (get_all_loop wc cf ?cl)) (session_get s))
      = length (session_get s)"
    by (simp add: marks_in_place_def)
  ultimately have "length (session_get (snd (get_all_flash_messages wc cf now s)))
      \<le> length (session_get s)"
    using get_all_session [of wc cf now s] length_cleanup [of now "session_get s"] by auto
  then show ?thesis using GetAll assms by simp
next
  case (Clear r)
  have "length (session_get (clear_flash_messages r s)) \<le> length (session_get s)"
    by (auto simp: clear_flash_messages_def Let_def dict_delitem_def split: option.split)
  then show ?thesis using Clear assms by simp
next
  case (Has r)
  then show ?thesis using assms by simp
qed


text \<open>Facts for the eviction scenario.\<close>

lemma dict_setitem_new: "k \<notin> fst ` set d \<Longrightarrow> dict_setitem k v d = d @ [(k, v)]"
  by (induction d) auto

lemma cleanup_all_young:
  "\<forall>(k, md) \<in> set d. now - get_timestamp md < MAX_MESSAGE_AGE \<Longrightarrow>
   cleanup_old_messages now d = d"
  unfolding cleanup_old_messages_def by (rule filter_True) auto

lemma foldl_min_first:
  "\<forall>y \<in> set xs. \<not> f y < f x \<Longrightarrow>
   foldl (\<lambda>best y. if f y < f best then y else best) x xs = x"
  by (induction xs) auto

lemma dict_delitem_hd:
  "k \<notin> fst ` set d \<Longrightarrow> dict_delitem k ((k, v) # d) = d"
  unfolding dict_delitem_def by (simp add: filter_id_conv) force

lemma evict_oldest_below:
  "length d < MAX_MESSAGES_PER_SESSION \<Longrightarrow> evict_oldest d = Inr d"
  by (simp add: evict_oldest_def)

text \<open>At capacity, with distinct keys and the first record strictly the oldest, the first
  record is the one evicted.\<close>

lemma evict_oldest_first:
  assumes full: "MAX_MESSAGES_PER_SESSION \<le> length ((k, md) # d)"
    and dist: "distinct (map fst ((k, md) # d))"
    and oldest: "\<forall>(k', md') \<in> set d. get_timestamp md < get_timestamp md'"
  shows "evict_oldest ((k, md) # d) = Inr d"
proof -
  let ?D = "(k, md) # d"
  have k: "timestamp_of_key ?D k = get_timestamp md"
    by (simp add: timestamp_of_key_def)
  have others: "\<not> timestamp_of_key ?D k' < timestamp_of_key ?D k" if "k' \<in> set (map fst d)" for k'
  proof -
    from that obtain md' where mem: "(k', md') \<in> set d" by auto
    have ne: "k' \<noteq> k" using dist that by auto
    have "map_of d k' = Some md'" using dist mem by simp
    then have "timestamp_of_key ?D k' = get_timestamp md'"
      using ne by (simp add: timestamp_of_key_def)
    then show ?thesis using oldest mem k by auto
  qed
  have "min_by_key (timestamp_of_key ?D) (map fst ?D) = Inr k"
    using foldl_min_first [of "map fst d" "timestamp_of_key ?D" k] others by simp
  moreover have "dict_delitem k ?D = d"
    using dist by (intro dict_delitem_hd) simp
  ultimately show ?thesis using full unfolding evict_oldest_def by simp
qed


lemma get_timestamp_inserted [simp]: "get_timestamp (snd (inserted i)) = ins_stamp i"
  by (simp add: inserted_def new_record_def get_timestamp_def)

lemma fst_inserted [simp]: "fst (inserted i) = ins_id i"
  by (simp add: inserted_def)

lemma run_insert_call:
  assumes ctx: "has_request_context s"
    and ev: "evict_oldest (cleanup_old_messages (ins_sweep i) (session_get s)) = Inr d'"
  shows "run (insert_call i) s =
     s\<lparr>session := Some (dict_setitem (ins_id i) (snd (inserted i)) d')\<rparr>"
  unfolding insert_call_def run.simps flash_message_stored [OF ctx ev]
  by (simp add: stored_id_def inserted_def)

text \<open>Below capacity, an insertion under a new id, swept while all records are young,
  appends its record.\<close>

lemma insert_appends:
  assumes ctx: "has_request_context s"
    and below: "length (session_get s) < MAX_MESSAGES_PER_SESSION"
    and new: "ins_id i \<notin> fst ` set (session_get s)"
    and young: "\<forall>(k, md) \<in> set (session_get s). ins_sweep i - get_timestamp md < MAX_MESSAGE_AGE"
  shows "session_get (run (insert_call i) s) = session_get s @ [inserted i]"
    and "has_request_context (run (insert_call i) s)"
proof -
  have cl: "cleanup_old_messages (ins_sweep i) (session_get s) = session_get s"
    using cleanup_all_young [OF young] .
  have ev: "evict_oldest (cleanup_old_messages (ins_sweep i) (session_get s)) = Inr (session_get s)"
    unfolding cl using evict_oldest_below [OF below] .
  show "session_get (run (insert_call i) s) = session_get s @ [inserted i]"
    unfolding run_insert_call [OF ctx ev] using dict_setitem_new [OF new, of "snd (inserted i)"]
    by (simp add: inserted_def)
  show "has_request_context (run (insert_call i) s)" using ctx by simp
qed

lemma fill:
  assumes "has_request_context s"
    and "length (session_get s) + length ins \<le> MAX_MESSAGES_PER_SESSION"
    and "distinct (map fst (session_get s) @ map ins_id ins)"
    and "\<forall>(k, md) \<in> set (session_get s). T0 \<le> get_timestamp md"
    and "\<forall>i \<in> set ins. T0 \<le> ins_stamp i \<and> ins_sweep i - T0 < MAX_MESSAGE_AGE"
  shows "session_get (fold run (map insert_call ins) s) = session_get s @ map inserted ins
       \<and> has_request_context (fold run (map insert_call ins) s)"
  using assms
proof (induction ins arbitrary: s)
  case Nil
  then show ?case by simp
next
  case (Cons i ins)
  let ?s' = "run (insert_call i) s"
  have below: "length (session_get s) < MAX_MESSAGES_PER_SESSION" using Cons.prems(2) by simp
  have new: "ins_id i \<notin> fst ` set (session_get s)" using Cons.prems(3) by auto
  have sweep: "ins_sweep i - T0 < MAX_MESSAGE_AGE" using Cons.prems(5) by simp
  have young: "\<forall>(k, md) \<in> set (session_get s). ins_sweep i - get_timestamp md < MAX_MESSAGE_AGE"
  proof (intro ballI, clarify)
    fix k md
    assume "(k, md) \<in> set (session_get s)"
    then have "T0 \<le> get_timestamp md" using Cons.prems(4) by auto
    then show "ins_sweep i - get_timestamp md < MAX_MESSAGE_AGE" using sweep by simp
  qed
  note step = insert_appends [OF Cons.prems(1) below new young]
  have len: "length (session_get ?s') + length ins \<le> MAX_MESSAGES_PER_SESSION"
    unfolding step(1) using Cons.prems(2) by simp
  have dist: "distinct (map fst (session_get ?s') @ map ins_id ins)"
    unfolding step(1) using Cons.prems(3) by auto
  have t0: "\<forall>(k, md) \<in> set (session_get ?s'). T0 \<le> get_timestamp md"
  proof (intro ballI, clarify)
    fix k md
    assume "(k, md) \<in> set (session_get ?s')"
    then have "(k, md) \<in> set (session_get s) \<or> (k, md) = inserted i"
      unfolding step(1) by auto
    then show "T0 \<le> get_timestamp md"
    proof
      assume "(k, md) \<in> set (session_get s)"
      then show ?thesis using Cons.prems(4) by auto
    next
      assume "(k, md) = inserted i"
      then have "get_timestamp md = ins_stamp i"
        by (metis get_timestamp_inserted snd_conv)
      then show ?thesis using Cons.prems(5) by simp
    qed
  qed
  have rest: "\<forall>i \<in> set ins. T0 \<le> ins_stamp i \<and> ins_sweep i - T0 < MAX_MESSAGE_AGE"
    using Cons.prems(5) by simp
  from Cons.IH [OF step(2) len dist t0 rest]
  show ?case unfolding step(1) by simp
qed

text \<open>The insertion that meets a full dictionary evicts its first record.\<close>

lemma insert_evicts_first:
  assumes ctx: "has_request_context s"
    and sess: "session_get s = (k, md) # d"
    and full: "MAX_MESSAGES_PER_SESSION \<le> length ((k, md) # d)"
    and dist: "distinct (map fst ((k, md) # d))"
    and oldest: "\<forall>(k', md') \<in> set d. get_timestamp md < get_timestamp md'"
    and new: "ins_id i \<notin> fst ` set ((k, md) # d)"
    and young: "\<forall>(k', md') \<in> set ((k, md) # d). ins_sweep i - get_timestamp md' < MAX_MESSAGE_AGE"
  shows "session_get (run (insert_call i) s) = d @ [inserted i]"
proof -
  have cl: "cleanup_old_messages (ins_sweep i) (session_get s) = (k, md) # d"
    unfolding sess using cleanup_all_young [OF young] .
  have ev: "evict_oldest (cleanup_old_messages (ins_sweep i) (session_get s)) = Inr d"
    unfolding cl using evict_oldest_first [OF full dist oldest] .
  have "ins_id i \<notin> fst ` set d" using new by auto
  then show ?thesis
    unfolding run_insert_call [OF ctx ev] using dict_setitem_new [of "ins_id i" d "snd (inserted i)"]
    by (simp add: inserted_def)
qed

lemma example_length: "length example_insertions = 26"
  by (simp add: example_insertions_def)

lemma example_distinct: "distinct (map ins_id example_insertions)"
  by (simp add: example_insertions_def)

lemma example_sorted: "sorted_wrt (<) (map ins_stamp example_insertions)"
  by (simp add: example_insertions_def)

lemma example_sweeps:
  "\<forall>i \<in> set example_insertions. ins_sweep i - ins_stamp (hd example_insertions) < MAX_MESSAGE_AGE"
  by (simp add: example_insertions_def MAX_MESSAGE_AGE_def)

text \<open>The bound is kept along every series of calls.\<close>

lemma length_fold_run:
  "length (session_get s) \<le> MAX_MESSAGES_PER_SESSION \<Longrightarrow>
   length (session_get (fold run cs s)) \<le> MAX_MESSAGES_PER_SESSION"
proof (induction cs arbitrary: s)
  case Nil
  then show ?case by simp
next
  case (Cons c cs)
  show ?case using Cons.IH [OF length_run [OF Cons.prems]] by simp
qed





section \<open>Adding, then reading\<close>

text \<open>
  C1. With an active request context, \<^verbatim>\<open>flash_message(message, category)\<close> returns a
  request id (the path, a colon and the identifier drawn, or the id the caller gave), and
  \<^verbatim>\<open>get_flash_messages\<close> called with that id right afterwards returns exactly
  \<^verbatim>\<open>[message]\<close>, or \<^verbatim>\<open>[(category, message)]\<close> with \<^verbatim>\<open>with_categories\<close>,
  whatever the session held before and whatever the clock read.
\<close>

theorem flash_then_get:
  assumes "has_request_context s"
  shows "\<exists>rid s1. flash_message m c request_id uuid now1 now2 s = (Inr rid, s1)
           \<and> rid = (case request_id of None \<Rightarrow> request_path s @ '':'' @ uuid | Some r \<Rightarrow> r)
           \<and> fst (get_flash_messages rid False None s1) = Inr [Text m]
           \<and> fst (get_flash_messages rid True None s1) = Inr [Categorised c m]"
proof -
  let ?rid = "case request_id of None \<Rightarrow> request_path s @ '':'' @ uuid | Some r \<Rightarrow> r"
  obtain d' where d': "evict_oldest (cleanup_old_messages now1 (session_get s)) = Inr d'"
    using evict_oldest_returns by blast
  let ?s1 = "s\<lparr>session := Some (dict_setitem ?rid (new_record m c now2) d')\<rparr>"
  have f: "flash_message m c request_id uuid now1 now2 s = (Inr ?rid, ?s1)"
    using flash_message_context [OF assms d'] .
  have ctx: "has_request_context ?s1" using assms by simp
  have found: "map_of (session_get ?s1) ?rid = Some (new_record m c now2)"
    by (simp add: map_of_dict_setitem)
  have g1: "fst (get_flash_messages ?rid False None ?s1) = Inr [Text m]"
    unfolding get_flash_messages_found [OF ctx found]
    by (simp add: excluded_def render_def new_record_def)
  have g2: "fst (get_flash_messages ?rid True None ?s1) = Inr [Categorised c m]"
    unfolding get_flash_messages_found [OF ctx found]
    by (simp add: excluded_def render_def new_record_def)
  show ?thesis using f g1 g2 by blast
qed

text \<open>The first test of the module: flash in \<^verbatim>\<open>/test\<close>, then read.\<close>

theorem flash_then_get_witness:
  "has_request_context \<lparr>has_request_context = True, request_path = ''/test'', session = None\<rparr>
   \<and> (\<exists>rid s1. flash_message ''Test message'' ''positive'' None ''u1'' 1000 1000
         \<lparr>has_request_context = True, request_path = ''/test'', session = None\<rparr> = (Inr rid, s1)
           \<and> rid = ''/test:u1''
           \<and> fst (get_flash_messages rid False None s1) = Inr [Text ''Test message'']
           \<and> fst (get_flash_messages rid True None s1) = Inr [Categorised ''positive'' ''Test message''])"
  using flash_then_get [of "\<lparr>has_request_context = True, request_path = ''/test'', session = None\<rparr>"
      "''Test message''" "''positive''" None "''u1''" 1000 1000]
  by simp

section \<open>Without a request context\<close>

text \<open>
  C6. Without an active request context each of the five public functions returns its
  sentinel, raises nothing and leaves the state as it was: \<^verbatim>\<open>flash_message\<close> returns
  the empty string, both retrieval functions the empty list, \<^verbatim>\<open>clear_flash_messages\<close>
  changes nothing and \<^verbatim>\<open>has_flash_messages\<close> is false.
\<close>

theorem no_context_sentinels:
  assumes "\<not> has_request_context s"
  shows "flash_message m c request_id uuid now1 now2 s = (Inr '''', s)
       \<and> get_flash_messages rid wc cf s = (Inr [], s)
       \<and> get_all_flash_messages wc cf now s = (Inr [], s)
       \<and> clear_flash_messages request_id s = s
       \<and> has_flash_messages request_id s = False"
  using assms
  by (simp add: flash_message_def get_flash_messages_def get_all_flash_messages_def
      clear_flash_messages_def has_flash_messages_def)

text \<open>The calls of \<^verbatim>\<open>test_no_request_context\<close>.\<close>

theorem no_context_sentinels_witness:
  "\<not> has_request_context \<lparr>has_request_context = False, request_path = '''', session = None\<rparr>
   \<and> flash_message ''Test message'' ''positive'' None ''u1'' 1000 1000
         \<lparr>has_request_context = False, request_path = '''', session = None\<rparr>
       = (Inr '''', \<lparr>has_request_context = False, request_path = '''', session = None\<rparr>)
   \<and> get_flash_messages ''test_id'' False None
         \<lparr>has_request_context = False, request_path = '''', session = None\<rparr>
       = (Inr [], \<lparr>has_request_context = False, request_path = '''', session = None\<rparr>)
   \<and> get_all_flash_messages False None 1000
         \<lparr>has_request_context = False, request_path = '''', session = None\<rparr>
       = (Inr [], \<lparr>has_request_context = False, request_path = '''', session = None\<rparr>)
   \<and> clear_flash_messages None \<lparr>has_request_context = False, request_path = '''', session = None\<rparr>
       = \<lparr>has_request_context = False, request_path = '''', session = None\<rparr>
   \<and> has_flash_messages None \<lparr>has_request_context = False, request_path = '''', session = None\<rparr>
       = False"
  using no_context_sentinels [of "\<lparr>has_request_context = False, request_path = '''', session = None\<rparr>"
      "''Test message''" "''positive''" None "''u1''" 1000 1000 "''test_id''" False None 1000]
  by simp

section \<open>The existence check\<close>



section \<open>Reading by id ignores the age\<close>

text \<open>
  C10. \<^verbatim>\<open>get_flash_messages(request_id)\<close> returns a record that is still in the
  session's dictionary and marks it consumed whatever its timestamp: the lookup takes no
  clock reading, so it also returns a record whose age is at or past
  \<^verbatim>\<open>MAX_MESSAGE_AGE\<close>, which a sweep at that time would drop. (The record has its
  message and category, and the filter, if any, admits the category.)
\<close>

theorem get_ignores_age:
  assumes "has_request_context s"
    and "map_of (session_get s) rid = Some md"
    and "message md = Some m" and "category md = Some c"
    and "case cf of None \<Rightarrow> True | Some F \<Rightarrow> F = [] \<or> c \<in> set F"
  shows "get_flash_messages rid wc cf s =
           (Inr [if wc then Categorised c m else Text m],
            s\<lparr>session := Some (dict_setitem rid (md\<lparr>consumed := Some True\<rparr>) (session_get s))\<rparr>)
       \<and> (\<forall>now. MAX_MESSAGE_AGE \<le> now - get_timestamp md
             \<longrightarrow> (rid, md) \<notin> set (cleanup_old_messages now (session_get s)))"
proof -
  have e: "excluded cf md = Inr False"
    using assms(4,5) by (auto simp: excluded_def split: option.splits)
  have r: "render wc md = Inr (if wc then Categorised c m else Text m)"
    using assms(3,4) by (simp add: render_def)
  have g: "get_flash_messages rid wc cf s =
           (Inr [if wc then Categorised c m else Text m],
            s\<lparr>session := Some (dict_setitem rid (md\<lparr>consumed := Some True\<rparr>) (session_get s))\<rparr>)"
    unfolding get_flash_messages_found [OF assms(1,2)] e r by simp
  have b: "(rid, md) \<notin> set (cleanup_old_messages now (session_get s))"
    if "MAX_MESSAGE_AGE \<le> now - get_timestamp md" for now
    using that by (simp add: cleanup_old_messages_set)
  show ?thesis using g b by blast
qed

text \<open>A record stamped 1000, read at a time when the sweep would drop it.\<close>

theorem get_ignores_age_witness:
  "has_request_context \<lparr>has_request_context = True, request_path = ''/test'',
      session = Some [(''/test:u1'', new_record ''Old message'' ''positive'' 1000)]\<rparr>
   \<and> MAX_MESSAGE_AGE \<le> 1400 - get_timestamp (new_record ''Old message'' ''positive'' 1000)
   \<and> get_flash_messages ''/test:u1'' True (Some [''positive''])
        \<lparr>has_request_context = True, request_path = ''/test'',
         session = Some [(''/test:u1'', new_record ''Old message'' ''positive'' 1000)]\<rparr>
      = (Inr [Categorised ''positive'' ''Old message''],
         \<lparr>has_request_context = True, request_path = ''/test'',
          session = Some [(''/test:u1'',
            (new_record ''Old message'' ''positive'' 1000)\<lparr>consumed := Some True\<rparr>)]\<rparr>)
   \<and> cleanup_old_messages 1400 [(''/test:u1'', new_record ''Old message'' ''positive'' 1000)] = []"
proof -
  let ?md = "new_record ''Old message'' ''positive'' 1000"
  let ?s = "\<lparr>has_request_context = True, request_path = ''/test'',
      session = Some [(''/test:u1'', ?md)]\<rparr>"
  have h: "has_request_context ?s" by simp
  have f: "map_of (session_get ?s) ''/test:u1'' = Some ?md" by (simp add: session_get_def)
  have m: "message ?md = Some ''Old message''" and c: "category ?md = Some ''positive''"
    by (simp_all add: new_record_def)
  have cf: "case Some [''positive''] of None \<Rightarrow> True | Some F \<Rightarrow> F = [] \<or> ''positive'' \<in> set F"
    by simp
  have old: "MAX_MESSAGE_AGE \<le> 1400 - get_timestamp ?md"
    by (simp add: MAX_MESSAGE_AGE_def get_timestamp_def new_record_def)
  have sw: "cleanup_old_messages 1400 [(''/test:u1'', ?md)] = []"
    by (simp add: cleanup_old_messages_def MAX_MESSAGE_AGE_def get_timestamp_def new_record_def)
  from get_ignores_age [OF h f m c cf, of True]
  have "get_flash_messages ''/test:u1'' True (Some [''positive'']) ?s
      = (Inr [Categorised ''positive'' ''Old message''],
         ?s\<lparr>session := Some (dict_setitem ''/test:u1'' (?md\<lparr>consumed := Some True\<rparr>) (session_get ?s))\<rparr>)"
    by simp
  then have "get_flash_messages ''/test:u1'' True (Some [''positive'']) ?s
      = (Inr [Categorised ''positive'' ''Old message''],
         \<lparr>has_request_context = True, request_path = ''/test'',
          session = Some [(''/test:u1'', ?md\<lparr>consumed := Some True\<rparr>)]\<rparr>)"
    by (simp add: session_get_def)
  with h old sw show ?thesis by blast
qed

section \<open>Reading by id consumes, also under a filter that excludes\<close>

text \<open>
  C3. When the session's dictionary has a record under \<^verbatim>\<open>request_id\<close>,
  \<^verbatim>\<open>get_flash_messages\<close> sets the record's \<^verbatim>\<open>consumed\<close> to true and writes the
  dictionary back to the session for every choice of \<^verbatim>\<open>with_categories\<close> and
  \<^verbatim>\<open>category_filter\<close>. When the filter is a non-empty list without the record's
  category, the call returns the empty list, the same call repeated returns the empty list
  again, and \<^verbatim>\<open>has_flash_messages(request_id)\<close> is false after either call.
\<close>

theorem get_consumes_when_filtered:
  assumes "has_request_context s"
    and "map_of (session_get s) rid = Some md"
    and "category md = Some c" and "F \<noteq> []" and "c \<notin> set F"
  shows "get_flash_messages rid wc (Some F) s =
           (Inr [], s\<lparr>session := Some (dict_setitem rid (md\<lparr>consumed := Some True\<rparr>) (session_get s))\<rparr>)
       \<and> (\<forall>wc' cf'. snd (get_flash_messages rid wc' cf' s) =
             s\<lparr>session := Some (dict_setitem rid (md\<lparr>consumed := Some True\<rparr>) (session_get s))\<rparr>)
       \<and> map_of (session_get (snd (get_flash_messages rid wc (Some F) s))) rid
           = Some (md\<lparr>consumed := Some True\<rparr>)
       \<and> fst (get_flash_messages rid wc (Some F) (snd (get_flash_messages rid wc (Some F) s))) = Inr []
       \<and> \<not> has_flash_messages (Some rid) (snd (get_flash_messages rid wc (Some F) s))
       \<and> \<not> has_flash_messages (Some rid)
             (snd (get_flash_messages rid wc (Some F) (snd (get_flash_messages rid wc (Some F) s))))"
proof -
  let ?md' = "md\<lparr>consumed := Some True\<rparr>"
  let ?s1 = "s\<lparr>session := Some (dict_setitem rid ?md' (session_get s))\<rparr>"
  let ?s2 = "?s1\<lparr>session := Some (dict_setitem rid (?md'\<lparr>consumed := Some True\<rparr>) (session_get ?s1))\<rparr>"
  have e: "excluded (Some F) md = Inr True"
    using assms(3-5) by (simp add: excluded_def)
  have g1: "get_flash_messages rid wc (Some F) s = (Inr [], ?s1)"
    unfolding get_flash_messages_found [OF assms(1,2)] e by simp
  have ctx1: "has_request_context ?s1" using assms(1) by simp
  have f1: "map_of (session_get ?s1) rid = Some ?md'"
    by (simp add: map_of_dict_setitem)
  have g2: "get_flash_messages rid wc (Some F) ?s1 = (Inr [], ?s2)"
    unfolding get_flash_messages_found [OF ctx1 f1] using e by simp
  have ctx2: "has_request_context ?s2" using assms(1) by simp
  have f2: "map_of (session_get ?s2) rid = Some (?md'\<lparr>consumed := Some True\<rparr>)"
    by (simp add: map_of_dict_setitem)
  have h1: "\<not> has_flash_messages (Some rid) ?s1"
    unfolding has_flash_messages_id [OF ctx1] f1 by (simp add: get_consumed_def)
  have h2: "\<not> has_flash_messages (Some rid) ?s2"
    unfolding has_flash_messages_id [OF ctx2] f2 by (simp add: get_consumed_def)
  have always: "snd (get_flash_messages rid wc' cf' s) = ?s1" for wc' cf'
    unfolding get_flash_messages_found [OF assms(1,2)] by simp
  have "get_flash_messages rid wc (Some F) s = (Inr [], ?s1)
       \<and> (\<forall>wc' cf'. snd (get_flash_messages rid wc' cf' s) = ?s1)
       \<and> map_of (session_get ?s1) rid = Some ?md'
       \<and> fst (get_flash_messages rid wc (Some F) ?s1) = Inr []
       \<and> \<not> has_flash_messages (Some rid) ?s1
       \<and> \<not> has_flash_messages (Some rid) (snd (get_flash_messages rid wc (Some F) ?s1))"
    unfolding g2 fst_conv snd_conv using g1 always f1 h1 h2 by blast
  then show ?thesis unfolding g1 snd_conv .
qed

text \<open>The scenario of the specification: a positive message read under the filter
  \<^verbatim>\<open>["negative"]\<close>.\<close>

theorem get_consumes_when_filtered_witness:
  "has_request_context \<lparr>has_request_context = True, request_path = ''/test'',
      session = Some [(''p'', new_record ''Positive message'' ''positive'' 1000),
                      (''n'', new_record ''Negative message'' ''negative'' 1000)]\<rparr>
   \<and> get_flash_messages ''p'' False (Some [''negative''])
       \<lparr>has_request_context = True, request_path = ''/test'',
        session = Some [(''p'', new_record ''Positive message'' ''positive'' 1000),
                        (''n'', new_record ''Negative message'' ''negative'' 1000)]\<rparr>
     = (Inr [], \<lparr>has_request_context = True, request_path = ''/test'',
        session = Some [(''p'', (new_record ''Positive message'' ''positive'' 1000)\<lparr>consumed := Some True\<rparr>),
                        (''n'', new_record ''Negative message'' ''negative'' 1000)]\<rparr>)
   \<and> fst (get_flash_messages ''p'' False (Some [''negative''])
       \<lparr>has_request_context = True, request_path = ''/test'',
        session = Some [(''p'', (new_record ''Positive message'' ''positive'' 1000)\<lparr>consumed := Some True\<rparr>),
                        (''n'', new_record ''Negative message'' ''negative'' 1000)]\<rparr>) = Inr []
   \<and> \<not> has_flash_messages (Some ''p'')
       \<lparr>has_request_context = True, request_path = ''/test'',
        session = Some [(''p'', (new_record ''Positive message'' ''positive'' 1000)\<lparr>consumed := Some True\<rparr>),
                        (''n'', new_record ''Negative message'' ''negative'' 1000)]\<rparr>"
proof -
  let ?p = "new_record ''Positive message'' ''positive'' 1000"
  let ?n = "new_record ''Negative message'' ''negative'' 1000"
  let ?s = "\<lparr>has_request_context = True, request_path = ''/test'',
      session = Some [(''p'', ?p), (''n'', ?n)]\<rparr>"
  let ?s1 = "\<lparr>has_request_context = True, request_path = ''/test'',
      session = Some [(''p'', ?p\<lparr>consumed := Some True\<rparr>), (''n'', ?n)]\<rparr>"
  have h: "has_request_context ?s" by simp
  have f: "map_of (session_get ?s) ''p'' = Some ?p" by (simp add: session_get_def)
  have c: "category ?p = Some ''positive''" by (simp add: new_record_def)
  have ne: "[''negative''] \<noteq> []" by simp
  have ni: "''positive'' \<notin> set [''negative'']" by simp
  have s1: "?s\<lparr>session := Some (dict_setitem ''p'' (?p\<lparr>consumed := Some True\<rparr>) (session_get ?s))\<rparr> = ?s1"
    by (simp add: session_get_def)
  note t = get_consumes_when_filtered [OF h f c ne ni, of False]
  have g: "get_flash_messages ''p'' False (Some [''negative'']) ?s = (Inr [], ?s1)"
    using t s1 by simp
  from t have "fst (get_flash_messages ''p'' False (Some [''negative''])
        (snd (get_flash_messages ''p'' False (Some [''negative'']) ?s))) = Inr []
      \<and> \<not> has_flash_messages (Some ''p'') (snd (get_flash_messages ''p'' False (Some [''negative'']) ?s))"
    by blast
  then have "fst (get_flash_messages ''p'' False (Some [''negative'']) ?s1) = Inr []
      \<and> \<not> has_flash_messages (Some ''p'') ?s1"
    unfolding g snd_conv .
  with h g show ?thesis by blast
qed

section \<open>The consumed flag\<close>

text \<open>
  C7, as the specification states it, fails: \<^verbatim>\<open>flash_message\<close> called with the request
  id of a consumed record stores a new record under that id, and the new record's
  \<^verbatim>\<open>consumed\<close> is false (line 95).
\<close>

theorem consumed_reset_by_flash_counterexample:
  "map_of (session_get \<lparr>has_request_context = True, request_path = ''/test'',
       session = Some [(''a'', (new_record ''Old'' ''positive'' 1000)\<lparr>consumed := Some True\<rparr>)]\<rparr>) ''a''
     = Some ((new_record ''Old'' ''positive'' 1000)\<lparr>consumed := Some True\<rparr>)
   \<and> consumed ((new_record ''Old'' ''positive'' 1000)\<lparr>consumed := Some True\<rparr>) = Some True
   \<and> flash_message ''New'' ''positive'' (Some ''a'') ''u'' 1001 1001
        \<lparr>has_request_context = True, request_path = ''/test'',
         session = Some [(''a'', (new_record ''Old'' ''positive'' 1000)\<lparr>consumed := Some True\<rparr>)]\<rparr>
     = (Inr ''a'', \<lparr>has_request_context = True, request_path = ''/test'',
         session = Some [(''a'', new_record ''New'' ''positive'' 1001)]\<rparr>)
   \<and> consumed (new_record ''New'' ''positive'' 1001) = Some False"
  by (simp add: flash_message_def session_get_def cleanup_old_messages_def evict_oldest_def
      new_record_def get_timestamp_def MAX_MESSAGE_AGE_def MAX_MESSAGES_PER_SESSION_def Let_def)

text \<open>
  C7, amended. For a record whose \<^verbatim>\<open>consumed\<close> is true, every call of a public function
  other than a \<^verbatim>\<open>flash_message\<close> that stores under the record's own request id leaves
  under that id either nothing (the record was swept, evicted or cleared) or the same
  record, its flag still true. A \<^verbatim>\<open>flash_message\<close> that stores under the record's id
  replaces it by a new record, whose \<^verbatim>\<open>consumed\<close> is false.
\<close>

theorem consumed_never_reset:
  assumes "distinct (map fst (session_get s))"
    and "map_of (session_get s) k = Some md" and "consumed md = Some True"
  shows "((\<forall>m cat rid u n1 n2. c = Flash m cat rid u n1 n2 \<longrightarrow> stored_id rid u s \<noteq> k)
           \<longrightarrow> map_of (session_get (run c s)) k = None
               \<or> map_of (session_get (run c s)) k = Some md)
       \<and> (has_request_context s \<and> stored_id rid u s = k
           \<longrightarrow> map_of (session_get (run (Flash m cat rid u n1 n2) s)) k
                 = Some (new_record m cat n2)
               \<and> consumed (new_record m cat n2) = Some False)"
proof -
  have one: "map_of (session_get (run c s)) k = None
               \<or> map_of (session_get (run c s)) k = Some md"
    if other: "\<forall>m cat rid u n1 n2. c = Flash m cat rid u n1 n2 \<longrightarrow> stored_id rid u s \<noteq> k"
  proof (cases c)
    case (Flash m' cat' rid' u' n1' n2')
    then have "stored_id rid' u' s \<noteq> k" using other by blast
    then show ?thesis unfolding Flash run.simps
      using flash_keeps_other [OF assms(1,2)] by blast
  next
    case (Get r wc cf)
    show ?thesis unfolding Get run.simps
      using get_keeps_consumed [OF assms(2,3)] by blast
  next
    case (GetAll wc cf now)
    show ?thesis unfolding GetAll run.simps
      using get_all_keeps_consumed [OF assms] by blast
  next
    case (Clear r)
    show ?thesis unfolding Clear run.simps
      using clear_keeps [OF assms(2)] by blast
  next
    case (Has r)
    show ?thesis unfolding Has run.simps using assms(2) by blast
  qed
  have two: "map_of (session_get (run (Flash m cat rid u n1 n2) s)) k = Some (new_record m cat n2)
               \<and> consumed (new_record m cat n2) = Some False"
    if ctx: "has_request_context s" and same: "stored_id rid u s = k"
  proof -
    obtain d' where d': "evict_oldest (cleanup_old_messages n1 (session_get s)) = Inr d'"
      using evict_oldest_returns by blast
    show ?thesis
      unfolding run.simps flash_message_stored [OF ctx d'] same
      by (simp add: map_of_dict_setitem new_record_def)
  qed
  show ?thesis using one two by blast
qed

text \<open>A consumed record under \<^verbatim>\<open>a\<close>, and a flash under a generated id and under
  \<^verbatim>\<open>a\<close> itself.\<close>

theorem consumed_never_reset_witness:
  "distinct (map fst (session_get \<lparr>has_request_context = True, request_path = ''/test'',
       session = Some [(''a'', (new_record ''Old'' ''positive'' 1000)\<lparr>consumed := Some True\<rparr>)]\<rparr>))
   \<and> stored_id None ''u1'' \<lparr>has_request_context = True, request_path = ''/test'',
       session = Some [(''a'', (new_record ''Old'' ''positive'' 1000)\<lparr>consumed := Some True\<rparr>)]\<rparr> \<noteq> ''a''
   \<and> (map_of (session_get (run (Flash ''New'' ''positive'' None ''u1'' 1001 1001)
        \<lparr>has_request_context = True, request_path = ''/test'',
         session = Some [(''a'', (new_record ''Old'' ''positive'' 1000)\<lparr>consumed := Some True\<rparr>)]\<rparr>)) ''a''
       = None
      \<or> map_of (session_get (run (Flash ''New'' ''positive'' None ''u1'' 1001 1001)
        \<lparr>has_request_context = True, request_path = ''/test'',
         session = Some [(''a'', (new_record ''Old'' ''positive'' 1000)\<lparr>consumed := Some True\<rparr>)]\<rparr>)) ''a''
       = Some ((new_record ''Old'' ''positive'' 1000)\<lparr>consumed := Some True\<rparr>))
   \<and> map_of (session_get (run (Flash ''New'' ''positive'' (Some ''a'') ''u1'' 1001 1001)
        \<lparr>has_request_context = True, request_path = ''/test'',
         session = Some [(''a'', (new_record ''Old'' ''positive'' 1000)\<lparr>consumed := Some True\<rparr>)]\<rparr>)) ''a''
       = Some (new_record ''New'' ''positive'' 1001)"
proof -
  let ?md = "(new_record ''Old'' ''positive'' 1000)\<lparr>consumed := Some True\<rparr>"
  let ?s = "\<lparr>has_request_context = True, request_path = ''/test'', session = Some [(''a'', ?md)]\<rparr>"
  have d: "distinct (map fst (session_get ?s))" by (simp add: session_get_def)
  have k: "map_of (session_get ?s) ''a'' = Some ?md" by (simp add: session_get_def)
  have c: "consumed ?md = Some True" by simp
  have other: "stored_id None ''u1'' ?s \<noteq> ''a''"
    by (simp add: stored_id_def get_request_id_def)
  have same: "has_request_context ?s \<and> stored_id (Some ''a'') ''u1'' ?s = ''a''"
    by (simp add: stored_id_def)
  have o: "\<forall>m cat rid u n1 n2. Flash ''New'' ''positive'' None ''u1'' 1001 1001 = Flash m cat rid u n1 n2
      \<longrightarrow> stored_id rid u ?s \<noteq> ''a''"
    using other by simp
  from consumed_never_reset [OF d k c, of "Flash ''New'' ''positive'' None ''u1'' 1001 1001"] o
  have a: "map_of (session_get (run (Flash ''New'' ''positive'' None ''u1'' 1001 1001) ?s)) ''a'' = None
      \<or> map_of (session_get (run (Flash ''New'' ''positive'' None ''u1'' 1001 1001) ?s)) ''a'' = Some ?md"
    by blast
  from consumed_never_reset [OF d k c, of _ "Some ''a''" "''u1''" "''New''" "''positive''" 1001 1001] same
  have b: "map_of (session_get (run (Flash ''New'' ''positive'' (Some ''a'') ''u1'' 1001 1001) ?s)) ''a''
      = Some (new_record ''New'' ''positive'' 1001)"
    by blast
  show ?thesis using d other a b by blast
qed

section \<open>The lazy sweep and expired records\<close>

text \<open>
  C5, as the specification states it, fails for \<^verbatim>\<open>flash_message\<close>: the call sweeps the
  expired record and then stores its new record, and when the caller supplies the expired
  record's request id the new record sits under that id, so
  \<^verbatim>\<open>has_flash_messages\<close> of the id is true afterwards.
\<close>

theorem sweep_removes_expired_counterexample:
  "map_of (session_get \<lparr>has_request_context = True, request_path = ''/test'',
       session = Some [(''a'', new_record ''Old message'' ''positive'' 1000)]\<rparr>) ''a''
     = Some (new_record ''Old message'' ''positive'' 1000)
   \<and> MAX_MESSAGE_AGE \<le> 1400 - 1000
   \<and> has_flash_messages (Some ''a'')
        (snd (flash_message ''New message'' ''positive'' (Some ''a'') ''u'' 1400 1400
          \<lparr>has_request_context = True, request_path = ''/test'',
           session = Some [(''a'', new_record ''Old message'' ''positive'' 1000)]\<rparr>))"
  by (simp add: flash_message_def session_get_def cleanup_old_messages_def evict_oldest_def
      new_record_def get_timestamp_def MAX_MESSAGE_AGE_def MAX_MESSAGES_PER_SESSION_def Let_def
      has_flash_messages_def get_consumed_def)

text \<open>
  C5, amended. The sweep at clock reading \<open>now\<close> keeps exactly the records whose age
  \<open>now - timestamp\<close> is below \<^verbatim>\<open>MAX_MESSAGE_AGE\<close> and drops exactly those whose age
  is at or above it. For a record stored at time \<open>T\<close> with
  \<open>MAX_MESSAGE_AGE \<le> now - T\<close>: after a \<^verbatim>\<open>flash_message\<close> that sweeps at \<open>now\<close> and
  stores under another request id, and after a \<^verbatim>\<open>get_all_flash_messages\<close> that sweeps
  at \<open>now\<close> and returns normally, the session's dictionary has no record under the id,
  \<^verbatim>\<open>has_flash_messages\<close> of the id is false, and what that and any later
  \<^verbatim>\<open>get_all_flash_messages\<close> returns is built from records under other ids.
\<close>

theorem sweep_removes_expired:
  assumes ctx: "has_request_context s"
    and d: "distinct (map fst (session_get s))"
    and k: "map_of (session_get s) k = Some md" and T: "timestamp md = Some T"
    and old: "MAX_MESSAGE_AGE \<le> now - T"
  shows "(\<forall>k' md'. (k', md') \<in> set (cleanup_old_messages now (session_get s)) \<longleftrightarrow>
            (k', md') \<in> set (session_get s) \<and> \<not> MAX_MESSAGE_AGE \<le> now - get_timestamp md')
    \<and> (stored_id rid u s \<noteq> k \<longrightarrow>
          map_of (session_get (snd (flash_message m c rid u now now2 s))) k = None
        \<and> \<not> has_flash_messages (Some k) (snd (flash_message m c rid u now now2 s))
        \<and> (\<forall>wc' cf' now' items'.
              fst (get_all_flash_messages wc' cf' now' (snd (flash_message m c rid u now now2 s)))
                = Inr items' \<longrightarrow>
              map Inr items' = map (\<lambda>(k', md'). render wc' md')
                (filter (\<lambda>(k', md'). k' \<noteq> k \<and> delivers cf' md')
                  (cleanup_old_messages now'
                    (session_get (snd (flash_message m c rid u now now2 s)))))))
    \<and> (fst (get_all_flash_messages wc cf now s) = Inr items \<longrightarrow>
          map Inr items = map (\<lambda>(k', md'). render wc md')
            (filter (\<lambda>(k', md'). k' \<noteq> k \<and> delivers cf md')
              (cleanup_old_messages now (session_get s)))
        \<and> map_of (session_get (snd (get_all_flash_messages wc cf now s))) k = None
        \<and> \<not> has_flash_messages (Some k) (snd (get_all_flash_messages wc cf now s))
        \<and> (\<forall>wc' cf' now' items'.
              fst (get_all_flash_messages wc' cf' now' (snd (get_all_flash_messages wc cf now s)))
                = Inr items' \<longrightarrow>
              map Inr items' = map (\<lambda>(k', md'). render wc' md')
                (filter (\<lambda>(k', md'). k' \<noteq> k \<and> delivers cf' md')
                  (cleanup_old_messages now'
                    (session_get (snd (get_all_flash_messages wc cf now s)))))))"
proof -
  let ?cl = "cleanup_old_messages now (session_get s)"
  have ts: "get_timestamp md = T" using T by (simp add: get_timestamp_def)
  have exact: "\<forall>k' md'. (k', md') \<in> set ?cl \<longleftrightarrow>
      (k', md') \<in> set (session_get s) \<and> \<not> MAX_MESSAGE_AGE \<le> now - get_timestamp md'"
    by (simp add: cleanup_old_messages_set not_le)
  have swept: "map_of ?cl k = None"
    using k old ts by (simp add: map_of_cleanup [OF d])
  have later: "map Inr items' = map (\<lambda>(k', md'). render wc' md')
                (filter (\<lambda>(k', md'). k' \<noteq> k \<and> delivers cf' md')
                  (cleanup_old_messages now' (session_get s1)))"
    if "has_request_context s1" and "map_of (session_get s1) k = None"
      and "fst (get_all_flash_messages wc' cf' now' s1) = Inr items'"
    for s1 wc' cf' now' items'
    using get_all_without_key [OF that(1) map_of_cleanup_absent [OF that(2)] that(3)] .
  have flash: "map_of (session_get (snd (flash_message m c rid u now now2 s))) k = None"
    if other: "stored_id rid u s \<noteq> k"
  proof -
    obtain d' where d': "evict_oldest ?cl = Inr d'"
      using evict_oldest_returns by blast
    have "map_of d' k = None" using map_of_evict_oldest [OF d', of k] swept by auto
    then show ?thesis
      unfolding flash_message_stored [OF ctx d'] using other
      by (simp add: map_of_dict_setitem)
  qed
  have ctxf: "has_request_context (snd (flash_message m c rid u now now2 s))"
    using ctx by simp
  have ga: "map_of (session_get (snd (get_all_flash_messages wc cf now s))) k = None"
    if ret: "fst (get_all_flash_messages wc cf now s) = Inr items"
  proof -
    have "k \<notin> fst ` set ?cl" using swept by (simp add: map_of_eq_None_iff)
    then have "k \<notin> set (map fst (session_get (snd (get_all_flash_messages wc cf now s))))"
      unfolding keys_get_all_Inr [OF ctx ret] by simp
    then show ?thesis by (simp add: map_of_eq_None_iff)
  qed
  have ctxg: "has_request_context (snd (get_all_flash_messages wc cf now s))"
    using ctx by simp
  show ?thesis
  proof (intro conjI impI allI)
    fix k' md'
    show "(k', md') \<in> set ?cl \<longleftrightarrow>
      (k', md') \<in> set (session_get s) \<and> \<not> MAX_MESSAGE_AGE \<le> now - get_timestamp md'"
      using exact by blast
  next
    assume "stored_id rid u s \<noteq> k"
    then show "map_of (session_get (snd (flash_message m c rid u now now2 s))) k = None"
      by (rule flash)
  next
    assume "stored_id rid u s \<noteq> k"
    then show "\<not> has_flash_messages (Some k) (snd (flash_message m c rid u now now2 s))"
      using absent_not_has [OF ctxf] flash by blast
  next
    fix wc' cf' now' items'
    assume "stored_id rid u s \<noteq> k"
      and "fst (get_all_flash_messages wc' cf' now' (snd (flash_message m c rid u now now2 s)))
                = Inr items'"
    then show "map Inr items' = map (\<lambda>(k', md'). render wc' md')
                (filter (\<lambda>(k', md'). k' \<noteq> k \<and> delivers cf' md')
                  (cleanup_old_messages now'
                    (session_get (snd (flash_message m c rid u now now2 s)))))"
      using later [OF ctxf] flash by blast
  next
    assume "fst (get_all_flash_messages wc cf now s) = Inr items"
    then show "map Inr items = map (\<lambda>(k', md'). render wc md')
            (filter (\<lambda>(k', md'). k' \<noteq> k \<and> delivers cf md') ?cl)"
      using get_all_without_key [OF ctx swept] by blast
  next
    assume "fst (get_all_flash_messages wc cf now s) = Inr items"
    then show "map_of (session_get (snd (get_all_flash_messages wc cf now s))) k = None"
      by (rule ga)
  next
    assume "fst (get_all_flash_messages wc cf now s) = Inr items"
    then show "\<not> has_flash_messages (Some k) (snd (get_all_flash_messages wc cf now s))"
      using absent_not_has [OF ctxg] ga by blast
  next
    fix wc' cf' now' items'
    assume "fst (get_all_flash_messages wc cf now s) = Inr items"
      and "fst (get_all_flash_messages wc' cf' now' (snd (get_all_flash_messages wc cf now s)))
                = Inr items'"
    then show "map Inr items' = map (\<lambda>(k', md'). render wc' md')
                (filter (\<lambda>(k', md'). k' \<noteq> k \<and> delivers cf' md')
                  (cleanup_old_messages now'
                    (session_get (snd (get_all_flash_messages wc cf now s)))))"
      using later [OF ctxg] ga by blast
  qed
qed


text \<open>The scenario of \<^verbatim>\<open>test_message_cleanup\<close>: stored at 1000, swept at 1400.\<close>

theorem sweep_removes_expired_witness:
  "has_request_context \<lparr>has_request_context = True, request_path = ''/test'',
       session = Some [(''/test:u1'', new_record ''Old message'' ''positive'' 1000)]\<rparr>
   \<and> MAX_MESSAGE_AGE \<le> 1400 - 1000
   \<and> stored_id None ''u2'' \<lparr>has_request_context = True, request_path = ''/test'',
       session = Some [(''/test:u1'', new_record ''Old message'' ''positive'' 1000)]\<rparr> \<noteq> ''/test:u1''
   \<and> \<not> has_flash_messages (Some ''/test:u1'')
        (snd (flash_message ''New message'' ''positive'' None ''u2'' 1400 1400
          \<lparr>has_request_context = True, request_path = ''/test'',
           session = Some [(''/test:u1'', new_record ''Old message'' ''positive'' 1000)]\<rparr>))
   \<and> fst (get_all_flash_messages False None 1400
          \<lparr>has_request_context = True, request_path = ''/test'',
           session = Some [(''/test:u1'', new_record ''Old message'' ''positive'' 1000)]\<rparr>) = Inr []
   \<and> \<not> has_flash_messages (Some ''/test:u1'')
        (snd (get_all_flash_messages False None 1400
          \<lparr>has_request_context = True, request_path = ''/test'',
           session = Some [(''/test:u1'', new_record ''Old message'' ''positive'' 1000)]\<rparr>))"
proof -
  let ?md = "new_record ''Old message'' ''positive'' 1000"
  let ?s = "\<lparr>has_request_context = True, request_path = ''/test'',
       session = Some [(''/test:u1'', ?md)]\<rparr>"
  have ctx: "has_request_context ?s" by simp
  have d: "distinct (map fst (session_get ?s))" by (simp add: session_get_def)
  have k: "map_of (session_get ?s) ''/test:u1'' = Some ?md" by (simp add: session_get_def)
  have T: "timestamp ?md = Some 1000" by (simp add: new_record_def)
  have old: "MAX_MESSAGE_AGE \<le> 1400 - 1000" by (simp add: MAX_MESSAGE_AGE_def)
  have other: "stored_id None ''u2'' ?s \<noteq> ''/test:u1''"
    by (simp add: stored_id_def get_request_id_def)
  have ret: "fst (get_all_flash_messages False None 1400 ?s) = Inr []"
    by (simp add: get_all_flash_messages_def session_get_def cleanup_old_messages_def
        get_timestamp_def new_record_def MAX_MESSAGE_AGE_def)
  note t = sweep_removes_expired [OF ctx d k T old, of None "''u2''" "''New message''" "''positive''"
      1400 False None "[]"]
  from t other have a: "\<not> has_flash_messages (Some ''/test:u1'')
        (snd (flash_message ''New message'' ''positive'' None ''u2'' 1400 1400 ?s))"
    by blast
  from t ret have b: "\<not> has_flash_messages (Some ''/test:u1'')
        (snd (get_all_flash_messages False None 1400 ?s))"
    by blast
  show ?thesis using ctx old other a ret b by blast
qed

section \<open>Records with missing keys\<close>





section \<open>Reading all messages\<close>

text \<open>
  C4. A call of \<^verbatim>\<open>get_all_flash_messages\<close> that returns normally returns the elements
  of the records that survive its sweep, are not consumed and are admitted by its filter,
  in the order of the dictionary. Take a first such call, then any calls of the public
  functions other than \<^verbatim>\<open>flash_message\<close>, then a second such call: no request id has
  its record returned by both. A record that the first call meets unconsumed and that its
  filter excludes is left unmarked by it, and a call that follows on the first, whose
  filter admits the record and whose sweep keeps it, returns the record's element.
\<close>

theorem get_all_never_twice:
  assumes ctx: "has_request_context s"
    and d: "distinct (map fst (session_get s))"
    and r1: "fst (get_all_flash_messages wc1 cf1 now1 s) = Inr items1"
    and nf: "\<forall>c \<in> set cs. \<not> is_flash c"
    and r2: "fst (get_all_flash_messages wc2 cf2 now2
               (fold run cs (snd (get_all_flash_messages wc1 cf1 now1 s)))) = Inr items2"
  shows "map Inr items1 = map (\<lambda>(k, md). render wc1 md)
           (filter (\<lambda>(k, md). delivers cf1 md) (cleanup_old_messages now1 (session_get s)))
    \<and> map Inr items2 = map (\<lambda>(k, md). render wc2 md)
           (filter (\<lambda>(k, md). delivers cf2 md)
             (cleanup_old_messages now2
               (session_get (fold run cs (snd (get_all_flash_messages wc1 cf1 now1 s))))))
    \<and> fst ` set (filter (\<lambda>(k, md). delivers cf1 md) (cleanup_old_messages now1 (session_get s)))
        \<inter> fst ` set (filter (\<lambda>(k, md). delivers cf2 md)
             (cleanup_old_messages now2
               (session_get (fold run cs (snd (get_all_flash_messages wc1 cf1 now1 s)))))) = {}
    \<and> (\<forall>k md. (k, md) \<in> set (cleanup_old_messages now1 (session_get s))
            \<and> \<not> get_consumed md \<and> excluded cf1 md = Inr True \<longrightarrow>
          map_of (session_get (snd (get_all_flash_messages wc1 cf1 now1 s))) k = Some md
          \<and> (\<forall>wc' cf' now' items' item.
                fst (get_all_flash_messages wc' cf' now'
                      (snd (get_all_flash_messages wc1 cf1 now1 s))) = Inr items'
                \<and> now' - get_timestamp md < MAX_MESSAGE_AGE
                \<and> excluded cf' md = Inr False \<and> render wc' md = Inr item
                \<longrightarrow> item \<in> set items'))"
proof -
  let ?s1 = "snd (get_all_flash_messages wc1 cf1 now1 s)"
  let ?s1' = "fold run cs ?s1"
  let ?cl1 = "cleanup_old_messages now1 (session_get s)"
  let ?cl2 = "cleanup_old_messages now2 (session_get ?s1')"
  let ?K = "fst ` set (filter (\<lambda>(k, md). delivers cf1 md) ?cl1)"
  have ctx1: "has_request_context ?s1" using ctx by simp
  have d1: "distinct (map fst (session_get ?s1))" using distinct_get_all [OF d] .
  have a: "map Inr items1 = map (\<lambda>(k, md). render wc1 md)
           (filter (\<lambda>(k, md). delivers cf1 md) ?cl1)"
    using get_all_flash_messages_Inr(1) [OF ctx r1] .
  have consumed1: "\<forall>k \<in> ?K. \<forall>md. map_of (session_get ?s1) k = Some md \<longrightarrow> consumed md = Some True"
  proof (intro ballI allI impI)
    fix k md'
    assume k: "k \<in> ?K" and m: "map_of (session_get ?s1) k = Some md'"
    from k obtain md where mem: "(k, md) \<in> set ?cl1" and del: "delivers cf1 md" by auto
    have "map_of (session_get ?s1) k = Some (md\<lparr>consumed := Some True\<rparr>)"
      using get_all_marks [OF ctx d r1 mem] del by simp
    with m show "consumed md' = Some True" by auto
  qed
  note inv = fold_run_keeps [OF nf d1 consumed1]
  have ctx1': "has_request_context ?s1'" using inv ctx1 by simp
  have d1': "distinct (map fst (session_get ?s1'))" using inv by simp
  have b: "map Inr items2 = map (\<lambda>(k, md). render wc2 md)
           (filter (\<lambda>(k, md). delivers cf2 md) ?cl2)"
    using get_all_flash_messages_Inr(1) [OF ctx1' r2] .
  have c: "?K \<inter> fst ` set (filter (\<lambda>(k, md). delivers cf2 md) ?cl2) = {}"
  proof (rule ccontr)
    assume "?K \<inter> fst ` set (filter (\<lambda>(k, md). delivers cf2 md) ?cl2) \<noteq> {}"
    then obtain k where k1: "k \<in> ?K"
      and k2: "k \<in> fst ` set (filter (\<lambda>(k, md). delivers cf2 md) ?cl2)" by blast
    from k2 obtain md where mem: "(k, md) \<in> set ?cl2" and del: "delivers cf2 md" by auto
    from mem have "(k, md) \<in> set (session_get ?s1')" by (simp add: cleanup_old_messages_set)
    then have "map_of (session_get ?s1') k = Some md" using d1' by simp
    then have "consumed md = Some True" using inv k1 by blast
    then show False using del by (simp add: delivers_def get_consumed_def)
  qed
  have e: "map_of (session_get ?s1) k = Some md
          \<and> (\<forall>wc' cf' now' items' item.
                fst (get_all_flash_messages wc' cf' now' ?s1) = Inr items'
                \<and> now' - get_timestamp md < MAX_MESSAGE_AGE
                \<and> excluded cf' md = Inr False \<and> render wc' md = Inr item
                \<longrightarrow> item \<in> set items')"
    if mem: "(k, md) \<in> set ?cl1" and unc: "\<not> get_consumed md" and ex: "excluded cf1 md = Inr True"
    for k md
  proof -
    have nd: "\<not> delivers cf1 md" using ex by (simp add: delivers_def)
    have kept: "map_of (session_get ?s1) k = Some md"
      using get_all_marks [OF ctx d r1 mem] nd by simp
    have later: "item \<in> set items'"
      if ret: "fst (get_all_flash_messages wc' cf' now' ?s1) = Inr items'"
        and young: "now' - get_timestamp md < MAX_MESSAGE_AGE"
        and adm: "excluded cf' md = Inr False" and ren: "render wc' md = Inr item"
      for wc' cf' now' items' item
    proof -
      let ?cl' = "cleanup_old_messages now' (session_get ?s1)"
      have "(k, md) \<in> set (session_get ?s1)" using kept by (rule map_of_SomeD)
      then have "(k, md) \<in> set ?cl'" using young by (simp add: cleanup_old_messages_set)
      then have "(k, md) \<in> set (filter (\<lambda>(k, md). delivers cf' md) ?cl')"
        using unc adm by (simp add: delivers_def)
      then have "(\<lambda>(k, md). render wc' md) (k, md)
          \<in> (\<lambda>(k, md). render wc' md) ` set (filter (\<lambda>(k, md). delivers cf' md) ?cl')"
        by (rule imageI)
      then have "Inr item \<in> set (map (\<lambda>(k, md). render wc' md)
          (filter (\<lambda>(k, md). delivers cf' md) ?cl'))"
        using ren by simp
      then have "Inr item \<in> set (map Inr items' :: (error + flash_item) list)"
        using get_all_flash_messages_Inr(1) [OF ctx1 ret] by simp
      then show ?thesis by auto
    qed
    show ?thesis
    proof (intro conjI allI impI)
      show "map_of (session_get ?s1) k = Some md" by (rule kept)
    next
      fix wc' cf' now' items' item
      assume h: "fst (get_all_flash_messages wc' cf' now' ?s1) = Inr items'
                \<and> now' - get_timestamp md < MAX_MESSAGE_AGE
                \<and> excluded cf' md = Inr False \<and> render wc' md = Inr item"
      show "item \<in> set items'"
        by (rule later [of wc' cf' now' items' item]) (simp_all add: h)
    qed
  qed
  show ?thesis
  proof (intro conjI allI impI)
    show "map Inr items1 = map (\<lambda>(k, md). render wc1 md)
           (filter (\<lambda>(k, md). delivers cf1 md) ?cl1)" by (rule a)
  next
    show "map Inr items2 = map (\<lambda>(k, md). render wc2 md)
           (filter (\<lambda>(k, md). delivers cf2 md) ?cl2)" by (rule b)
  next
    show "?K \<inter> fst ` set (filter (\<lambda>(k, md). delivers cf2 md) ?cl2) = {}" by (rule c)
  next
    fix k md
    assume h: "(k, md) \<in> set ?cl1 \<and> \<not> get_consumed md \<and> excluded cf1 md = Inr True"
    show "map_of (session_get ?s1) k = Some md"
      using e [of k md] h by (elim conjE) simp
  next
    fix k md wc' cf' now' items' item
    assume h: "(k, md) \<in> set ?cl1 \<and> \<not> get_consumed md \<and> excluded cf1 md = Inr True"
      and h': "fst (get_all_flash_messages wc' cf' now' ?s1) = Inr items'
                \<and> now' - get_timestamp md < MAX_MESSAGE_AGE
                \<and> excluded cf' md = Inr False \<and> render wc' md = Inr item"
    have "\<forall>wc' cf' now' items' item.
                fst (get_all_flash_messages wc' cf' now' ?s1) = Inr items'
                \<and> now' - get_timestamp md < MAX_MESSAGE_AGE
                \<and> excluded cf' md = Inr False \<and> render wc' md = Inr item
                \<longrightarrow> item \<in> set items'"
      using e [of k md] h by (elim conjE) simp
    then show "item \<in> set items'" using h' by (elim allE impE) assumption
  qed
qed


text \<open>Two messages; the first pass filters on \<^verbatim>\<open>positive\<close>, the second takes the rest.\<close>

theorem get_all_never_twice_witness:
  "has_request_context \<lparr>has_request_context = True, request_path = ''/test'',
      session = Some [(''p'', new_record ''Message 1'' ''positive'' 1000),
                      (''n'', new_record ''Message 2'' ''negative'' 1000)]\<rparr>
   \<and> distinct (map fst (session_get \<lparr>has_request_context = True, request_path = ''/test'',
      session = Some [(''p'', new_record ''Message 1'' ''positive'' 1000),
                      (''n'', new_record ''Message 2'' ''negative'' 1000)]\<rparr>))
   \<and> get_all_flash_messages False (Some [''positive'']) 1000
       \<lparr>has_request_context = True, request_path = ''/test'',
        session = Some [(''p'', new_record ''Message 1'' ''positive'' 1000),
                        (''n'', new_record ''Message 2'' ''negative'' 1000)]\<rparr>
     = (Inr [Text ''Message 1''],
        \<lparr>has_request_context = True, request_path = ''/test'',
         session = Some [(''p'', (new_record ''Message 1'' ''positive'' 1000)\<lparr>consumed := Some True\<rparr>),
                         (''n'', new_record ''Message 2'' ''negative'' 1000)]\<rparr>)
   \<and> fst (get_all_flash_messages False None 1001
        (fold run [Has (Some ''p'')]
          \<lparr>has_request_context = True, request_path = ''/test'',
           session = Some [(''p'', (new_record ''Message 1'' ''positive'' 1000)\<lparr>consumed := Some True\<rparr>),
                           (''n'', new_record ''Message 2'' ''negative'' 1000)]\<rparr>))
     = Inr [Text ''Message 2'']
   \<and> fst ` set (filter (\<lambda>(k, md). delivers (Some [''positive'']) md)
        (cleanup_old_messages 1000 [(''p'', new_record ''Message 1'' ''positive'' 1000),
                                    (''n'', new_record ''Message 2'' ''negative'' 1000)]))
       \<inter> fst ` set (filter (\<lambda>(k, md). delivers None md)
        (cleanup_old_messages 1001
          [(''p'', (new_record ''Message 1'' ''positive'' 1000)\<lparr>consumed := Some True\<rparr>),
           (''n'', new_record ''Message 2'' ''negative'' 1000)])) = {}"
proof -
  let ?p = "new_record ''Message 1'' ''positive'' 1000"
  let ?n = "new_record ''Message 2'' ''negative'' 1000"
  let ?s = "\<lparr>has_request_context = True, request_path = ''/test'',
      session = Some [(''p'', ?p), (''n'', ?n)]\<rparr>"
  let ?s1 = "\<lparr>has_request_context = True, request_path = ''/test'',
      session = Some [(''p'', ?p\<lparr>consumed := Some True\<rparr>), (''n'', ?n)]\<rparr>"
  have ctx: "has_request_context ?s" by simp
  have d: "distinct (map fst (session_get ?s))" by (simp add: session_get_def)
  have g1: "get_all_flash_messages False (Some [''positive'']) 1000 ?s = (Inr [Text ''Message 1''], ?s1)"
    by (simp add: get_all_flash_messages_def session_get_def cleanup_old_messages_def
        get_timestamp_def get_consumed_def new_record_def MAX_MESSAGE_AGE_def excluded_def
        render_def)
  have r1: "fst (get_all_flash_messages False (Some [''positive'']) 1000 ?s) = Inr [Text ''Message 1'']"
    unfolding g1 by simp
  have nf: "\<forall>c \<in> set [Has (Some ''p'')]. \<not> is_flash c" by simp
  have g2: "fst (get_all_flash_messages False None 1001 (fold run [Has (Some ''p'')] ?s1))
      = Inr [Text ''Message 2'']"
    by (simp add: get_all_flash_messages_def session_get_def cleanup_old_messages_def
        get_timestamp_def get_consumed_def new_record_def MAX_MESSAGE_AGE_def excluded_def
        render_def)
  have r2: "fst (get_all_flash_messages False None 1001
      (fold run [Has (Some ''p'')] (snd (get_all_flash_messages False (Some [''positive'']) 1000 ?s))))
      = Inr [Text ''Message 2'']"
    unfolding g1 snd_conv by (rule g2)
  have sg: "session_get ?s = [(''p'', ?p), (''n'', ?n)]" by (simp add: session_get_def)
  have sg1: "session_get (fold run [Has (Some ''p'')] ?s1)
      = [(''p'', ?p\<lparr>consumed := Some True\<rparr>), (''n'', ?n)]"
    by (simp add: session_get_def)
  from get_all_never_twice [OF ctx d r1 nf r2]
  have "fst ` set (filter (\<lambda>(k, md). delivers (Some [''positive'']) md)
          (cleanup_old_messages 1000 (session_get ?s)))
       \<inter> fst ` set (filter (\<lambda>(k, md). delivers None md)
          (cleanup_old_messages 1001
            (session_get (fold run [Has (Some ''p'')]
              (snd (get_all_flash_messages False (Some [''positive'']) 1000 ?s)))))) = {}"
    by (elim conjE)
  then have disj: "fst ` set (filter (\<lambda>(k, md). delivers (Some [''positive'']) md)
          (cleanup_old_messages 1000 [(''p'', ?p), (''n'', ?n)]))
       \<inter> fst ` set (filter (\<lambda>(k, md). delivers None md)
          (cleanup_old_messages 1001 [(''p'', ?p\<lparr>consumed := Some True\<rparr>), (''n'', ?n)])) = {}"
    unfolding g1 snd_conv sg sg1 .
  show ?thesis
    by (intro conjI) (rule ctx d g1 g2 disj)+
qed

section \<open>The capacity bound\<close>

text \<open>
  C2. The module is the only writer of the session's dictionary, so the dictionaries it
  meets are those reached from an empty session by calls of its public functions. In every
  such state the dictionary holds at most \<^verbatim>\<open>MAX_MESSAGES_PER_SESSION\<close> records, and
  it holds at most that many immediately after any call of \<^verbatim>\<open>flash_message\<close>; the
  bound is kept by \<^verbatim>\<open>flash_message\<close> from any dictionary within it. In particular,
  starting from an empty dictionary, \<^verbatim>\<open>MAX_MESSAGES_PER_SESSION + 1\<close> insertions with
  distinct request ids and strictly increasing timestamps, each sweeping while the first
  record is not expired, leave exactly the records of all insertions but the first, in
  their order: \<^verbatim>\<open>MAX_MESSAGES_PER_SESSION\<close> records, the one with the smallest
  timestamp evicted.
\<close>

theorem capacity_bound:
  "(session_get s = [] \<longrightarrow>
      length (session_get (fold run cs s)) \<le> MAX_MESSAGES_PER_SESSION
      \<and> length (session_get (snd (flash_message m c rid u n1 n2 (fold run cs s))))
          \<le> MAX_MESSAGES_PER_SESSION)
   \<and> (length (session_get s) \<le> MAX_MESSAGES_PER_SESSION \<longrightarrow>
      length (session_get (snd (flash_message m c rid u n1 n2 s))) \<le> MAX_MESSAGES_PER_SESSION)
   \<and> (has_request_context s \<and> session_get s = []
        \<and> length ins = Suc MAX_MESSAGES_PER_SESSION
        \<and> distinct (map ins_id ins)
        \<and> sorted_wrt (<) (map ins_stamp ins)
        \<and> (\<forall>i \<in> set ins. ins_sweep i - ins_stamp (hd ins) < MAX_MESSAGE_AGE)
      \<longrightarrow> session_get (fold run (map insert_call ins) s) = map inserted (tl ins)
        \<and> length (session_get (fold run (map insert_call ins) s)) = MAX_MESSAGES_PER_SESSION
        \<and> map_of (session_get (fold run (map insert_call ins) s)) (ins_id (hd ins)) = None
        \<and> (\<forall>i \<in> set (tl ins). ins_stamp (hd ins) < ins_stamp i))"
proof (intro conjI impI)
  assume "session_get s = []"
  then have "length (session_get s) \<le> MAX_MESSAGES_PER_SESSION" by simp
  then show "length (session_get (fold run cs s)) \<le> MAX_MESSAGES_PER_SESSION"
    by (rule length_fold_run)
next
  assume "session_get s = []"
  then have "length (session_get s) \<le> MAX_MESSAGES_PER_SESSION" by simp
  then have "length (session_get (fold run cs s)) \<le> MAX_MESSAGES_PER_SESSION"
    by (rule length_fold_run)
  then show "length (session_get (snd (flash_message m c rid u n1 n2 (fold run cs s))))
      \<le> MAX_MESSAGES_PER_SESSION"
    by (rule length_flash)
next
  assume "length (session_get s) \<le> MAX_MESSAGES_PER_SESSION"
  then show "length (session_get (snd (flash_message m c rid u n1 n2 s))) \<le> MAX_MESSAGES_PER_SESSION"
    by (rule length_flash)
next
  assume h: "has_request_context s \<and> session_get s = []
        \<and> length ins = Suc MAX_MESSAGES_PER_SESSION
        \<and> distinct (map ins_id ins)
        \<and> sorted_wrt (<) (map ins_stamp ins)
        \<and> (\<forall>i \<in> set ins. ins_sweep i - ins_stamp (hd ins) < MAX_MESSAGE_AGE)"
  then have ctx: "has_request_context s" and empty: "session_get s = []"
    and len: "length ins = Suc MAX_MESSAGES_PER_SESSION"
    and dist: "distinct (map ins_id ins)"
    and incr: "sorted_wrt (<) (map ins_stamp ins)"
    and sweeps: "\<forall>i \<in> set ins. ins_sweep i - ins_stamp (hd ins) < MAX_MESSAGE_AGE"
    by simp_all
  from len obtain i0 rest where ins: "ins = i0 # rest" by (cases ins) simp_all
  have "rest \<noteq> []" using len ins by (auto simp: MAX_MESSAGES_PER_SESSION_def)
  then obtain mid iN where rest: "rest = mid @ [iN]" by (cases rest rule: rev_cases) simp_all
  let ?T0 = "ins_stamp i0"
  let ?front = "i0 # mid"
  have lenf: "length ?front = MAX_MESSAGES_PER_SESSION" using len ins rest by simp
  have later: "\<forall>i \<in> set (mid @ [iN]). ?T0 < ins_stamp i"
    using incr unfolding ins rest by simp
  have sw: "\<forall>i \<in> set (i0 # mid @ [iN]). ins_sweep i - ?T0 < MAX_MESSAGE_AGE"
    using sweeps unfolding ins rest by simp
  \<comment> \<open>the first insertions fill the dictionary\<close>
  have f1: "length (session_get s) + length ?front \<le> MAX_MESSAGES_PER_SESSION"
    using empty lenf by simp
  have f2: "distinct (map fst (session_get s) @ map ins_id ?front)"
    using empty dist unfolding ins rest by simp
  have f3: "\<forall>(k, md) \<in> set (session_get s). ?T0 \<le> get_timestamp md"
    using empty by simp
  have f4: "\<forall>i \<in> set ?front. ?T0 \<le> ins_stamp i \<and> ins_sweep i - ?T0 < MAX_MESSAGE_AGE"
    using later sw by auto
  let ?s25 = "fold run (map insert_call ?front) s"
  from fill [OF ctx f1 f2 f3 f4]
  have s25: "session_get ?s25 = inserted i0 # map inserted mid"
    and ctx25: "has_request_context ?s25"
    using empty by simp_all
  \<comment> \<open>the last insertion evicts the first record\<close>
  have sess: "session_get ?s25 = (ins_id i0, snd (inserted i0)) # map inserted mid"
    unfolding s25 by (simp add: inserted_def)
  have full: "MAX_MESSAGES_PER_SESSION \<le> length ((ins_id i0, snd (inserted i0)) # map inserted mid)"
    using lenf by simp
  have keys: "map fst (map inserted mid) = map ins_id mid" by (simp add: comp_def)
  have keys': "fst \<circ> inserted = ins_id" by (simp add: fun_eq_iff)
  have d25: "distinct (map fst ((ins_id i0, snd (inserted i0)) # map inserted mid))"
    using dist unfolding ins rest by (simp add: keys')
  have oldest: "\<forall>(k', md') \<in> set (map inserted mid).
      get_timestamp (snd (inserted i0)) < get_timestamp md'"
  proof (intro ballI, clarify)
    fix k' md'
    assume "(k', md') \<in> set (map inserted mid)"
    then obtain i where i: "i \<in> set mid" and e: "(k', md') = inserted i" by auto
    have "get_timestamp md' = ins_stamp i" using e by (metis get_timestamp_inserted snd_conv)
    then show "get_timestamp (snd (inserted i0)) < get_timestamp md'"
      using later i by simp
  qed
  have new: "ins_id iN \<notin> fst ` set ((ins_id i0, snd (inserted i0)) # map inserted mid)"
  proof -
    have "fst ` set ((ins_id i0, snd (inserted i0)) # map inserted mid) = set (map ins_id ?front)"
      using keys by (metis fst_conv list.simps(9) set_map)
    then show ?thesis using dist unfolding ins rest by auto
  qed
  have young: "\<forall>(k', md') \<in> set ((ins_id i0, snd (inserted i0)) # map inserted mid).
      ins_sweep iN - get_timestamp md' < MAX_MESSAGE_AGE"
  proof (intro ballI, clarify)
    fix k' md'
    assume "(k', md') \<in> set ((ins_id i0, snd (inserted i0)) # map inserted mid)"
    then obtain i where i: "i \<in> set ?front" and e: "(k', md') = inserted i"
      by (auto simp: inserted_def)
    have "get_timestamp md' = ins_stamp i" using e by (metis get_timestamp_inserted snd_conv)
    moreover have "?T0 \<le> ins_stamp i" using f4 i by blast
    moreover have "ins_sweep iN - ?T0 < MAX_MESSAGE_AGE" using sw by simp
    ultimately show "ins_sweep iN - get_timestamp md' < MAX_MESSAGE_AGE" by simp
  qed
  have split: "fold run (map insert_call ins) s = run (insert_call iN) ?s25"
    unfolding ins rest by simp
  have final: "session_get (fold run (map insert_call ins) s) = map inserted (tl ins)"
    unfolding split insert_evicts_first [OF ctx25 sess full d25 oldest new young]
    unfolding ins rest by simp
  show "session_get (fold run (map insert_call ins) s) = map inserted (tl ins)"
    by (rule final)
  show "length (session_get (fold run (map insert_call ins) s)) = MAX_MESSAGES_PER_SESSION"
    unfolding final using len by simp
  show "map_of (session_get (fold run (map insert_call ins) s)) (ins_id (hd ins)) = None"
  proof -
    have "fst ` set (map inserted (tl ins)) = set (map ins_id (tl ins))"
      by (simp add: image_image)
    moreover have "ins_id (hd ins) \<notin> set (map ins_id (tl ins))"
      using dist unfolding ins by simp
    ultimately show ?thesis unfolding final by (simp add: map_of_eq_None_iff)
  qed
  show "\<forall>i \<in> set (tl ins). ins_stamp (hd ins) < ins_stamp i"
    using later unfolding ins rest by simp
qed


text \<open>The example insertions into an empty session, and one more insertion after them.\<close>

theorem capacity_bound_witness:
  "has_request_context \<lparr>has_request_context = True, request_path = ''/test'', session = None\<rparr>
   \<and> session_get \<lparr>has_request_context = True, request_path = ''/test'', session = None\<rparr> = []
   \<and> length example_insertions = Suc MAX_MESSAGES_PER_SESSION
   \<and> distinct (map ins_id example_insertions)
   \<and> sorted_wrt (<) (map ins_stamp example_insertions)
   \<and> list_all (\<lambda>i. ins_sweep i - ins_stamp (hd example_insertions) < MAX_MESSAGE_AGE)
        example_insertions
   \<and> length (session_get (snd (flash_message ''New'' ''message'' None ''u1'' 1030 1030
        (fold run (map insert_call example_insertions)
          \<lparr>has_request_context = True, request_path = ''/test'', session = None\<rparr>))))
        \<le> MAX_MESSAGES_PER_SESSION
   \<and> session_get (fold run (map insert_call example_insertions)
        \<lparr>has_request_context = True, request_path = ''/test'', session = None\<rparr>)
       = map inserted (tl example_insertions)
   \<and> length (session_get (fold run (map insert_call example_insertions)
        \<lparr>has_request_context = True, request_path = ''/test'', session = None\<rparr>))
       = MAX_MESSAGES_PER_SESSION
   \<and> map_of (session_get (fold run (map insert_call example_insertions)
        \<lparr>has_request_context = True, request_path = ''/test'', session = None\<rparr>)) ''a'' = None"
proof -
  let ?s = "\<lparr>has_request_context = True, request_path = ''/test'', session = None\<rparr>"
  have ctx: "has_request_context ?s" by simp
  have empty: "session_get ?s = []" by (simp add: session_get_def)
  have len: "length example_insertions = Suc MAX_MESSAGES_PER_SESSION"
    by (simp add: example_length MAX_MESSAGES_PER_SESSION_def)
  have hd: "ins_id (hd example_insertions) = ''a''" by (simp add: example_insertions_def)
  have la: "list_all (\<lambda>i. ins_sweep i - ins_stamp (hd example_insertions) < MAX_MESSAGE_AGE)
        example_insertions"
    using example_sweeps by (simp add: list_all_iff)
  note t = capacity_bound [of ?s "map insert_call example_insertions" "''New''" "''message''" None
      "''u1''" 1030 1030 example_insertions]
  have a: "length (session_get (snd (flash_message ''New'' ''message'' None ''u1'' 1030 1030
      (fold run (map insert_call example_insertions) ?s)))) \<le> MAX_MESSAGES_PER_SESSION"
    using t [THEN conjunct1, THEN mp, OF empty] by (rule conjunct2)
  have hyps: "has_request_context ?s \<and> session_get ?s = []
        \<and> length example_insertions = Suc MAX_MESSAGES_PER_SESSION
        \<and> distinct (map ins_id example_insertions)
        \<and> sorted_wrt (<) (map ins_stamp example_insertions)
        \<and> (\<forall>i \<in> set example_insertions.
              ins_sweep i - ins_stamp (hd example_insertions) < MAX_MESSAGE_AGE)"
    by (intro conjI) (rule ctx empty len example_distinct example_sorted example_sweeps)+
  note r = t [THEN conjunct2, THEN conjunct2, THEN mp, OF hyps]
  have b1: "session_get (fold run (map insert_call example_insertions) ?s)
            = map inserted (tl example_insertions)"
    using r by (rule conjunct1)
  have b2: "length (session_get (fold run (map insert_call example_insertions) ?s))
            = MAX_MESSAGES_PER_SESSION"
    using r [THEN conjunct2] by (rule conjunct1)
  have b3: "map_of (session_get (fold run (map insert_call example_insertions) ?s)) ''a'' = None"
    using r [THEN conjunct2, THEN conjunct2, THEN conjunct1] unfolding hd .
  show ?thesis
    by (intro conjI) (rule ctx empty len example_distinct example_sorted la a b1 b2 b3)+
qed

end
